theory Spec2Isabelle
  imports Main "HOL-Library.Word"
begin

section \<open>Data model (types.ts)\<close>

text \<open>
  A JavaScript string is a sequence of UTF-16 code units. Step titles, descriptions,
  identifiers and column names are all of this type.
\<close>

type_synonym jsstring = "16 word list"

datatype chart_type = Bar | Line | Pie | Scatter

record ChartConfig =
  chart_type :: chart_type
  chart_title :: jsstring
  xAxis :: jsstring
  yAxis :: jsstring

record StepResult =
  summary :: jsstring
  insights :: "jsstring list"
  charts :: "ChartConfig list"

datatype status = Pending | Analyzing | Done | Error

text \<open>
  The field \<open>id\<close> of the source is \<open>id_field\<close> here (\<open>id\<close> is the identity function of
  HOL). The optional \<open>result\<close> is an option.
\<close>

record StepAnalysis =
  id_field :: jsstring
  title :: jsstring
  description :: jsstring
  status :: status
  result :: "StepResult option"

record FieldCategorization =
  id_fields :: "jsstring list"
  content_fields :: "jsstring list"
  category_fields :: "jsstring list"
  time_fields :: "jsstring list"
  numeric_fields :: "jsstring list"
  other_fields :: "jsstring list"

text \<open>
  A \<open>DataRow\<close> is an object with arbitrary cells. The orchestrator never looks inside a
  row, so the row type is a parameter.
\<close>

record 'row SheetData =
  sheet_name :: jsstring
  rows :: "'row list"
  columns :: "jsstring list"
  fieldCategorization :: FieldCategorization

record 'row FileData =
  file_name :: jsstring
  sheets :: "'row SheetData list"
  activeSheetIndex :: nat

section \<open>JavaScript containers\<close>

text \<open>
  A JavaScript \<open>Set\<close> iterates in insertion order and holds no duplicates: a list
  without duplicates, new members at the end.
\<close>

type_synonym 'a js_set = "'a list"

definition Set_has :: "'a js_set \<Rightarrow> 'a \<Rightarrow> bool" where
  "Set_has s x = (x \<in> set s)"

definition Set_add :: "'a js_set \<Rightarrow> 'a \<Rightarrow> 'a js_set" where
  "Set_add s x = (if x \<in> set s then s else s @ [x])"

definition Set_delete :: "'a js_set \<Rightarrow> 'a \<Rightarrow> 'a js_set" where
  "Set_delete s x = removeAll x s"

definition Set_size :: "'a js_set \<Rightarrow> nat" where
  "Set_size s = length s"

text \<open>\<open>new Set(iterable)\<close> adds the members one by one.\<close>

definition new_Set :: "'a list \<Rightarrow> 'a js_set" where
  "new_Set xs = foldl Set_add [] xs"

text \<open>
  A JavaScript \<open>Map\<close> iterates in insertion order, one entry per key: \<open>set\<close> on a key
  that is present keeps its place, on a new key appends.
\<close>

type_synonym ('k, 'v) js_map = "('k \<times> 'v) list"

fun Map_get :: "('k, 'v) js_map \<Rightarrow> 'k \<Rightarrow> 'v option" where
  "Map_get [] k = None"
| "Map_get ((k', v) # m) k = (if k' = k then Some v else Map_get m k)"

fun Map_set :: "('k, 'v) js_map \<Rightarrow> 'k \<Rightarrow> 'v \<Rightarrow> ('k, 'v) js_map" where
  "Map_set [] k v = [(k, v)]"
| "Map_set ((k', v') # m) k v = (if k' = k then (k, v) # m else (k', v') # Map_set m k v)"

definition Map_delete :: "('k, 'v) js_map \<Rightarrow> 'k \<Rightarrow> ('k, 'v) js_map" where
  "Map_delete m k = filter (\<lambda>e. fst e \<noteq> k) m"

text \<open>Reading an array at an index: \<open>undefined\<close> (here \<open>None\<close>) out of range.\<close>

definition at_index :: "'a list \<Rightarrow> nat \<Rightarrow> 'a option" where
  "at_index xs i = (if i < length xs then Some (xs ! i) else None)"

text \<open>\<open>Array.prototype.map\<close> with the two-argument callback \<open>(element, index)\<close>.\<close>

definition map_idx :: "('a \<Rightarrow> nat \<Rightarrow> 'b) \<Rightarrow> 'a list \<Rightarrow> 'b list" where
  "map_idx f xs = map (\<lambda>(i, x). f x i) (enumerate 0 xs)"

text \<open>\<open>Array.prototype.findIndex\<close>; the source's \<open>-1\<close> is \<open>None\<close>.\<close>

fun findIndex_from :: "nat \<Rightarrow> ('a \<Rightarrow> bool) \<Rightarrow> 'a list \<Rightarrow> nat option" where
  "findIndex_from n p [] = None"
| "findIndex_from n p (x # xs) = (if p x then Some n else findIndex_from (Suc n) p xs)"

definition findIndex :: "('a \<Rightarrow> bool) \<Rightarrow> 'a list \<Rightarrow> nat option" where
  "findIndex p xs = findIndex_from 0 p xs"

datatype exn = TypeError

section \<open>Component state and the selection handlers\<close>

text \<open>
  The state of the \<open>App\<close> component that the handlers below read and write. The panel
  widths and the resize flags belong to the layout and are left out. File and sheet indices
  are array indices, natural numbers.
\<close>

record 'row App =
  fileDatas :: "'row FileData list option"
  stepAnalyses :: "StepAnalysis list"
  selectedSheetsMap :: "(nat, nat js_set) js_map"
  sidebarVisible :: bool

definition initial_App :: "'row App" where
  "initial_App = \<lparr>fileDatas = None, stepAnalyses = [], selectedSheetsMap = [],
                   sidebarVisible = True\<rparr>"

definition handleDataLoaded :: "'row FileData list \<Rightarrow> 'row App \<Rightarrow> 'row App" where
  "handleDataLoaded dataArray st =
     (let initialMap = (if length dataArray > 0 then Map_set [] 0 (new_Set [0]) else [])
      in st\<lparr>fileDatas := Some dataArray, selectedSheetsMap := initialMap,
            stepAnalyses := []\<rparr>)"

definition handleToggleSheet :: "nat \<Rightarrow> nat \<Rightarrow> 'row App \<Rightarrow> 'row App" where
  "handleToggleSheet fileIdx sheetIdx st =
     (let newMap = selectedSheetsMap st;
          set0 = new_Set (case Map_get newMap fileIdx of Some s \<Rightarrow> s | None \<Rightarrow> []);
          set1 = (if Set_has set0 sheetIdx then Set_delete set0 sheetIdx
                  else Set_add set0 sheetIdx);
          newMap' = (if Set_size set1 = 0 then Map_delete newMap fileIdx
                     else Map_set newMap fileIdx set1)
      in st\<lparr>selectedSheetsMap := newMap'\<rparr>)"

text \<open>
  \<open>handleToggleFile\<close> reads \<open>file.sheets\<close> of \<open>fileDatas[fileIdx]\<close> without a check: on
  an index with no file that is a \<open>TypeError\<close>, and no state is written.
\<close>

definition handleToggleFile :: "nat \<Rightarrow> 'row App \<Rightarrow> exn + 'row App" where
  "handleToggleFile fileIdx st =
     (case fileDatas st of
        None \<Rightarrow> Inr st
      | Some fds \<Rightarrow>
          (case at_index fds fileIdx of
             None \<Rightarrow> Inl TypeError
           | Some file \<Rightarrow>
               (let newMap = selectedSheetsMap st;
                    currentlySelected =
                      (case Map_get newMap fileIdx of Some s \<Rightarrow> s | None \<Rightarrow> new_Set []);
                    newMap' =
                      (if Set_size currentlySelected = length (sheets file)
                       then Map_delete newMap fileIdx
                       else Map_set newMap fileIdx
                              (new_Set (map_idx (\<lambda>_ i. i) (sheets file))))
                in Inr (st\<lparr>selectedSheetsMap := newMap'\<rparr>))))"

definition reset :: "'row App \<Rightarrow> 'row App" where
  "reset st = st\<lparr>fileDatas := None, stepAnalyses := [], selectedSheetsMap := [],
                 sidebarVisible := True\<rparr>"

text \<open>The invariant of the selection: no file index is mapped to the empty set.\<close>

definition selection_ok :: "(nat, nat js_set) js_map \<Rightarrow> bool" where
  "selection_ok m = list_all (\<lambda>e. snd e \<noteq> []) m"

section \<open>JavaScript strings\<close>

text \<open>
  \<open>String.prototype.trim\<close> removes white space and line terminators from both ends:
  TAB, LF, VT, FF, CR, SP, NBSP, U+1680, U+2000 to U+200A, LS, PS, U+202F, U+205F,
  U+3000 and the byte order mark.
\<close>

definition is_space :: "16 word \<Rightarrow> bool" where
  "is_space c =
     (c = 0x09 \<or> c = 0x0A \<or> c = 0x0B \<or> c = 0x0C \<or> c = 0x0D \<or> c = 0x20 \<or> c = 0xA0 \<or>
      c = 0x1680 \<or> (0x2000 \<le> c \<and> c \<le> 0x200A) \<or> c = 0x2028 \<or> c = 0x2029 \<or>
      c = 0x202F \<or> c = 0x205F \<or> c = 0x3000 \<or> c = 0xFEFF)"

definition trim :: "jsstring \<Rightarrow> jsstring" where
  "trim s = rev (dropWhile is_space (rev (dropWhile is_space s)))"

text \<open>\<open>s.split(c)\<close> for a one-unit separator: never empty, \<open>''.split(c)\<close> is \<open>['']\<close>.\<close>

fun split_on :: "'a \<Rightarrow> 'a list \<Rightarrow> 'a list list" where
  "split_on c [] = [[]]"
| "split_on c (x # xs) =
     (if x = c then [] # split_on c xs
      else (case split_on c xs of [] \<Rightarrow> [[x]] | p # ps \<Rightarrow> (x # p) # ps))"

fun join :: "'a list \<Rightarrow> 'a list list \<Rightarrow> 'a list" where
  "join sep [] = []"
| "join sep [p] = p"
| "join sep (p # q # ps) = p @ sep @ join sep (q # ps)"

definition colon :: "16 word" where
  "colon = 0x3A"

text \<open>A non-negative integer in a template literal: its decimal digits.\<close>

function toString :: "nat \<Rightarrow> jsstring" where
  "toString n = (if n < 10 then [of_nat (48 + n)]
                 else toString (n div 10) @ [of_nat (48 + n mod 10)])"
  by pat_completeness auto
termination
  by (relation "measure (\<lambda>n. n)") auto

declare toString.simps [simp del]

section \<open>The step orchestrator\<close>

text \<open>
  \<open>activeSheets\<close> is recomputed from \<open>fileDatas\<close> and \<open>selectedSheetsMap\<close>. The entries are
  visited in the map's order and each set in its own order. An entry whose file index
  has no file is skipped; a sheet index with no sheet pushes \<open>undefined\<close> (\<open>None\<close>).
\<close>

definition activeSheets :: "'row App \<Rightarrow> 'row SheetData option list" where
  "activeSheets st =
     (case fileDatas st of
        None \<Rightarrow> []
      | Some fds \<Rightarrow>
          concat (map (\<lambda>(fIdx, indices).
            concat (map (\<lambda>sIdx.
              (case at_index fds fIdx of
                 Some file \<Rightarrow> [at_index (sheets file) sIdx]
               | None \<Rightarrow> [])) indices)) (selectedSheetsMap st)))"

text \<open>
  \<open>activeSheets.flatMap(s => f(s))\<close> where the callback reads a field of \<open>s\<close>: a
  \<open>TypeError\<close> at an \<open>undefined\<close> sheet.
\<close>

fun flatMap_sheets :: "('s \<Rightarrow> 'b list) \<Rightarrow> 's option list \<Rightarrow> exn + 'b list" where
  "flatMap_sheets f [] = Inr []"
| "flatMap_sheets f (None # ss) = Inl TypeError"
| "flatMap_sheets f (Some s # ss) =
     (case flatMap_sheets f ss of Inl e \<Rightarrow> Inl e | Inr r \<Rightarrow> Inr (f s @ r))"

text \<open>
  The external \<open>analyzeSingleStep\<close> is a parameter. It is effectful, so it reads and
  returns a state of the outside world \<open>'w\<close>; its promise is fulfilled with a result,
  rejected, or never settles.
\<close>

datatype outcome = Fulfilled StepResult | Rejected | Unsettled

type_synonym ('row, 'w) analyzer =
  "'w \<Rightarrow> jsstring \<Rightarrow> jsstring \<Rightarrow> 'row list \<Rightarrow> jsstring list \<Rightarrow> outcome \<times> 'w"

text \<open>
  An asynchronous handler either runs to its end (\<open>Settled\<close>, with the world it leaves) or
  stays suspended at an \<open>await\<close> that never settles.
\<close>

datatype 'w completion = Settled 'w | Suspended

text \<open>
  What a handler does is recorded, in order: each value written by \<open>setStepAnalyses\<close>,
  each call of \<open>analyzeSingleStep\<close> and how it settled, and the start and end of each
  \<open>executeStep\<close>.
\<close>

datatype 'row event =
    ExecStart nat
  | StepsSet "StepAnalysis list"
  | AnalyzeCall nat jsstring jsstring "'row list" "jsstring list"
  | AnalyzeReturned nat StepResult
  | AnalyzeThrew nat
  | ExecEnd nat

text \<open>The \<open>catch\<close> block of \<open>executeStep\<close>.\<close>

definition on_catch ::
  "nat \<Rightarrow> StepAnalysis list \<Rightarrow> 'w \<Rightarrow> 'row event list \<times> StepAnalysis list \<times> 'w completion" where
  "on_catch index prev w =
     (let s2 = map_idx (\<lambda>s i. if i = index then s\<lparr>status := Error\<rparr> else s) prev
      in ([StepsSet s2, ExecEnd index], s2, Settled w))"

text \<open>
  \<open>executeStep\<close>: \<open>act\<close> is the \<open>activeSheets\<close> of the render the handler belongs to,
  \<open>prev\<close> the current \<open>stepAnalyses\<close>, which every functional update maps over. One
  handler runs at a time: between two writes of a handler no other handler changes
  \<open>stepAnalyses\<close>, so each functional update is applied to the value written last. An
  \<open>await\<close> is the place where the outcome of the awaited call decides how the handler
  goes on. The \<open>console.error\<close> of the \<open>catch\<close> block changes no state and is left out.
\<close>

definition executeStep ::
  "('row, 'w) analyzer \<Rightarrow> 'row SheetData option list \<Rightarrow> nat \<Rightarrow> StepAnalysis list \<Rightarrow>
   StepAnalysis list \<times> 'w \<Rightarrow> 'row event list \<times> StepAnalysis list \<times> 'w completion" where
  "executeStep analyzeSingleStep act index currentSteps = (\<lambda>(prev, w).
     if length act = 0 then ([ExecStart index, ExecEnd index], prev, Settled w)
     else
       let step = at_index currentSteps index;
           s1 = map_idx (\<lambda>s i. if i = index then s\<lparr>status := Analyzing\<rparr> else s) prev;
           (tr, r) =
             (case flatMap_sheets (\<lambda>s. take 50 (rows s)) act of
                Inl e \<Rightarrow> on_catch index s1 w
              | Inr combinedSample \<Rightarrow>
                  (case flatMap_sheets columns act of
                     Inl e \<Rightarrow> on_catch index s1 w
                   | Inr cols \<Rightarrow>
                       let combinedColumns = new_Set cols in
                       (case step of
                          None \<Rightarrow> on_catch index s1 w
                        | Some step \<Rightarrow>
                            (case analyzeSingleStep w (title step) (description step)
                                    combinedSample combinedColumns of
                               (Fulfilled res, w') \<Rightarrow>
                                 let s2 = map_idx (\<lambda>s i. if i = index
                                            then s\<lparr>status := Done, result := Some res\<rparr>
                                            else s) s1
                                 in ([AnalyzeCall index (title step) (description step)
                                        combinedSample combinedColumns,
                                      AnalyzeReturned index res, StepsSet s2, ExecEnd index],
                                     s2, Settled w')
                             | (Rejected, w') \<Rightarrow>
                                 (case on_catch index s1 w' of (tr, r) \<Rightarrow>
                                    (AnalyzeCall index (title step) (description step)
                                       combinedSample combinedColumns
                                     # AnalyzeThrew index # tr, r))
                             | (Unsettled, w') \<Rightarrow>
                                 ([AnalyzeCall index (title step) (description step)
                                     combinedSample combinedColumns],
                                  s1, Suspended)))))
       in (ExecStart index # StepsSet s1 # tr, r))"

text \<open>
  One element of \<open>customSteps.map\<close> in \<open>runAnalysis\<close>. \<open>now idx\<close> is what \<open>Date.now()\<close>
  reads when the element at \<open>idx\<close> is built.
\<close>

definition step_prefix :: jsstring where
  "step_prefix = [0x73, 0x74, 0x65, 0x70, 0x2D]"

definition default_title :: "nat \<Rightarrow> jsstring" where
  "default_title n = [0x5206, 0x6790, 0x6B65, 0x9AA4, 0x20] @ toString n"

definition parse_step :: "(nat \<Rightarrow> nat) \<Rightarrow> jsstring \<Rightarrow> nat \<Rightarrow> StepAnalysis" where
  "parse_step now s idx =
     (let parts = split_on colon s;
          title' = (case at_index parts 0 of
                      None \<Rightarrow> default_title (idx + 1)
                    | Some p \<Rightarrow> if trim p = [] then default_title (idx + 1) else trim p);
          joined = trim (join [colon] (drop 1 parts));
          description' = (if joined = [] then s else joined)
      in \<lparr>id_field = step_prefix @ toString (now idx) @ [0x2D] @ toString idx,
          title = title', description = description', status = Pending, result = None\<rparr>)"

text \<open>The serial \<open>for\<close> loop of \<open>runAnalysis\<close>, from counter \<open>i\<close>.\<close>

function run_steps ::
  "('row, 'w) analyzer \<Rightarrow> 'row SheetData option list \<Rightarrow> StepAnalysis list \<Rightarrow> nat \<Rightarrow>
   StepAnalysis list \<times> 'w \<Rightarrow> 'row event list \<times> StepAnalysis list \<times> 'w completion" where
  "run_steps an act initialSteps i (steps, w) =
     (if i < length initialSteps then
        (case executeStep an act i initialSteps (steps, w) of
           (tr, steps', Settled w') \<Rightarrow>
             (case run_steps an act initialSteps (Suc i) (steps', w') of
                (tr', r) \<Rightarrow> (tr @ tr', r))
         | (tr, steps', Suspended) \<Rightarrow> (tr, steps', Suspended))
      else ([], steps, Settled w))"
  by pat_completeness auto
termination
  by (relation "measure (\<lambda>(an, act, initialSteps, i, s). length initialSteps - i)") auto

declare run_steps.simps [simp del]

definition runAnalysis ::
  "('row, 'w) analyzer \<Rightarrow> (nat \<Rightarrow> nat) \<Rightarrow> jsstring list option \<Rightarrow> 'row App \<Rightarrow> 'w \<Rightarrow>
   'row event list \<times> 'row App \<times> 'w completion" where
  "runAnalysis an now customSteps st w =
     (case customSteps of
        None \<Rightarrow> ([], st, Settled w)
      | Some cs \<Rightarrow>
          if length cs = 0 then ([], st, Settled w)
          else
            let initialSteps = map_idx (parse_step now) cs in
            (case run_steps an (activeSheets st) initialSteps 0 (initialSteps, w) of
               (tr, steps, c) \<Rightarrow>
                 (StepsSet initialSteps # tr, st\<lparr>stepAnalyses := steps\<rparr>, c)))"

definition handleReAnalyzeStep ::
  "('row, 'w) analyzer \<Rightarrow> jsstring \<Rightarrow> jsstring \<Rightarrow> jsstring \<Rightarrow> 'row App \<Rightarrow> 'w \<Rightarrow>
   'row event list \<times> 'row App \<times> 'w completion" where
  "handleReAnalyzeStep an id' newTitle newDescription st w =
     (case findIndex (\<lambda>s. id_field s = id') (stepAnalyses st) of
        None \<Rightarrow> ([], st, Settled w)
      | Some index \<Rightarrow>
          let updatedSteps = (stepAnalyses st)
                [index := (stepAnalyses st ! index)
                   \<lparr>title := newTitle, description := newDescription, status := Analyzing\<rparr>]
          in (case executeStep an (activeSheets st) index updatedSteps (updatedSteps, w) of
                (tr, steps, c) \<Rightarrow>
                  (StepsSet updatedSteps # tr, st\<lparr>stepAnalyses := steps\<rparr>, c)))"

section \<open>Reading a trace\<close>

text \<open>The values written by \<open>setStepAnalyses\<close>, in order.\<close>

definition steps_written :: "'row event list \<Rightarrow> StepAnalysis list list" where
  "steps_written tr = concat (map (\<lambda>e. case e of StepsSet s \<Rightarrow> [s] | _ \<Rightarrow> []) tr)"

text \<open>The statuses that the step at position \<open>i\<close> shows, one per written value.\<close>

definition status_history :: "nat \<Rightarrow> 'row event list \<Rightarrow> status list" where
  "status_history i tr =
     concat (map (\<lambda>s. case at_index s i of Some x \<Rightarrow> [status x] | None \<Rightarrow> [])
               (steps_written tr))"

text \<open>
  One move along \<open>pending \<rightarrow> analyzing \<rightarrow> done|error\<close>, or no move (a value written for
  another step repeats the status).
\<close>

definition lifecycle_step :: "status \<Rightarrow> status \<Rightarrow> bool" where
  "lifecycle_step a b =
     (a = b \<or> (a = Pending \<and> b = Analyzing) \<or> (a = Analyzing \<and> (b = Done \<or> b = Error)))"

text \<open>The functional updates of \<open>executeStep\<close> all have this form.\<close>

definition mark ::
  "nat \<Rightarrow> (StepAnalysis \<Rightarrow> StepAnalysis) \<Rightarrow> StepAnalysis list \<Rightarrow> StepAnalysis list" where
  "mark index g prev = map_idx (\<lambda>s i. if i = index then g s else s) prev"

text \<open>
  A monitor for seriality. Its state is the index of the step whose \<open>executeStep\<close> is
  next (or running) and the phase of that execution. \<open>executeStep\<close> may start only when
  nothing is running and only for the next index; \<open>analyzeSingleStep\<close> may be called
  only by the running execution, once, and nothing else happens until it settles.
\<close>

datatype phase = Idle | Running | InFlight | Finishing

fun serial_step :: "nat \<times> phase \<Rightarrow> 'row event \<Rightarrow> (nat \<times> phase) option" where
  "serial_step (k, ph) (ExecStart i) =
     (if ph = Idle \<and> i = k then Some (k, Running) else None)"
| "serial_step (k, ph) (AnalyzeCall i t d r cs) =
     (if ph = Running \<and> i = k then Some (k, InFlight) else None)"
| "serial_step (k, ph) (AnalyzeReturned i res) =
     (if ph = InFlight \<and> i = k then Some (k, Finishing) else None)"
| "serial_step (k, ph) (AnalyzeThrew i) =
     (if ph = InFlight \<and> i = k then Some (k, Finishing) else None)"
| "serial_step (k, ph) (ExecEnd i) =
     (if (ph = Running \<or> ph = Finishing) \<and> i = k then Some (Suc k, Idle) else None)"
| "serial_step (k, ph) (StepsSet s) =
     (if ph = InFlight then None else Some (k, ph))"

fun serial_run :: "nat \<times> phase \<Rightarrow> 'row event list \<Rightarrow> (nat \<times> phase) option" where
  "serial_run s [] = Some s"
| "serial_run s (e # es) =
     (case serial_step s e of None \<Rightarrow> None | Some s' \<Rightarrow> serial_run s' es)"

text \<open>The number of calls of \<open>analyzeSingleStep\<close> that have not settled.\<close>

fun in_flight :: "'row event list \<Rightarrow> int" where
  "in_flight [] = 0"
| "in_flight (AnalyzeCall i t d r cs # es) = in_flight es + 1"
| "in_flight (AnalyzeReturned i res # es) = in_flight es - 1"
| "in_flight (AnalyzeThrew i # es) = in_flight es - 1"
| "in_flight (e # es) = in_flight es"

text \<open>The indices for which \<open>executeStep\<close> was started, in order.\<close>

definition started :: "'row event list \<Rightarrow> nat list" where
  "started tr = concat (map (\<lambda>e. case e of ExecStart i \<Rightarrow> [i] | _ \<Rightarrow> []) tr)"

text \<open>The members of a list at the positions where they occur for the first time.\<close>

definition first_occurrences :: "'a list \<Rightarrow> 'a list" where
  "first_occurrences xs =
     map (\<lambda>i. xs ! i) (filter (\<lambda>i. xs ! i \<notin> set (take i xs)) [0..<length xs])"

text \<open>The selected (file index, sheet index) pairs in the iteration order of the map.\<close>

definition selected_pairs :: "(nat, nat js_set) js_map \<Rightarrow> (nat \<times> nat) list" where
  "selected_pairs m = concat (map (\<lambda>(fIdx, indices). map (\<lambda>sIdx. (fIdx, sIdx)) indices) m)"

section \<open>A small run\<close>

text \<open>
  One file with one sheet of three rows, selected by \<open>handleDataLoaded\<close>; two custom steps,
  \<open>'a: b:c'\<close> and \<open>' : '\<close>; an analysis service that answers its first call and rejects
  every later one (its world is the number of calls so far).
\<close>

definition example_result :: StepResult where
  "example_result = \<lparr>summary = [0x6F, 0x6B], insights = [], charts = []\<rparr>"

definition example_analyzer :: "(nat, nat) analyzer" where
  "example_analyzer w t d sample cols =
     (if w = 0 then (Fulfilled example_result, Suc w) else (Rejected, Suc w))"

definition example_sheet :: "nat SheetData" where
  "example_sheet =
     \<lparr>sheet_name = [0x53], rows = [1, 2, 3], columns = [[0x61], [0x62], [0x61]],
      fieldCategorization = \<lparr>id_fields = [], content_fields = [], category_fields = [],
        time_fields = [], numeric_fields = [], other_fields = []\<rparr>\<rparr>"

definition example_App :: "nat App" where
  "example_App = handleDataLoaded
     [\<lparr>file_name = [0x46], sheets = [example_sheet], activeSheetIndex = 0\<rparr>] initial_App"

definition example_steps :: "jsstring list" where
  "example_steps = [[0x61, 0x3A, 0x20, 0x62, 0x3A, 0x63], [0x20, 0x3A, 0x20]]"

definition example_run :: "nat event list \<times> nat App \<times> nat completion" where
  "example_run = runAnalysis example_analyzer (\<lambda>i. 17) (Some example_steps) example_App 0"

text \<open>
  The state that the small run leaves, and a re-analysis of its second step (the one
  that ended in \<open>error\<close>) with the title \<open>'t'\<close> and the description \<open>'d'\<close>, against a
  service that answers.
\<close>

definition example_done :: "nat App" where
  "example_done = fst (snd example_run)"

definition example_rerun :: "nat event list \<times> nat App \<times> nat completion" where
  "example_rerun = handleReAnalyzeStep example_analyzer
     (step_prefix @ [0x31, 0x37, 0x2D, 0x31]) [0x74] [0x64] example_done 0"

text \<open>One more execution of the second step of the small run, as it stands.\<close>

definition example_exec :: "nat event list \<times> StepAnalysis list \<times> nat completion" where
  "example_exec = executeStep example_analyzer (activeSheets example_done) 1
     (stepAnalyses example_done) (stepAnalyses example_done, 0)"

text \<open>The state that the small run leaves, with every sheet deselected.\<close>

definition example_unselected :: "nat App" where
  "example_unselected = example_done\<lparr>selectedSheetsMap := []\<rparr>"

text \<open>
  The two parts of a custom step, in the words of the specification: the text before
  the first colon, and the text after it (empty when there is no colon).
\<close>

definition text_before_first_colon :: "jsstring \<Rightarrow> jsstring" where
  "text_before_first_colon s = takeWhile (\<lambda>x. x \<noteq> colon) s"

definition text_after_first_colon :: "jsstring \<Rightarrow> jsstring" where
  "text_after_first_colon s = drop 1 (dropWhile (\<lambda>x. x \<noteq> colon) s)"

text \<open>
  A file with two sheets, the second one with 60 rows. The first sheet is deselected and
  selected again, so the selection of the file iterates sheet 1 before sheet 0. Then one
  execution of a step against it.
\<close>

definition example_big_sheet :: "nat SheetData" where
  "example_big_sheet =
     \<lparr>sheet_name = [0x42], rows = [0..<60], columns = [[0x62], [0x63]],
      fieldCategorization = \<lparr>id_fields = [], content_fields = [], category_fields = [],
        time_fields = [], numeric_fields = [], other_fields = []\<rparr>\<rparr>"

definition example_two :: "nat App" where
  "example_two =
     handleToggleSheet 0 0 (handleToggleSheet 0 0 (handleToggleSheet 0 1
       (handleDataLoaded
          [\<lparr>file_name = [0x46], sheets = [example_sheet, example_big_sheet],
             activeSheetIndex = 0\<rparr>] initial_App)))"

definition example_exec_two :: "nat event list \<times> StepAnalysis list \<times> nat completion" where
  "example_exec_two = executeStep example_analyzer (activeSheets example_two) 0
     (stepAnalyses example_done) (stepAnalyses example_done, 0)"

section \<open>The selection invariant\<close>

lemma selection_ok_Map_delete: "selection_ok m \<Longrightarrow> selection_ok (Map_delete m k)"
  by (simp add: selection_ok_def Map_delete_def list_all_iff)

lemma selection_ok_Map_set: "selection_ok m \<Longrightarrow> s \<noteq> [] \<Longrightarrow> selection_ok (Map_set m k s)"
  by (induction m) (auto simp: selection_ok_def)

lemma Set_size_0: "Set_size s = 0 \<longleftrightarrow> s = []"
  by (simp add: Set_size_def)

lemma new_Set_snoc: "new_Set (xs @ [x]) = Set_add (new_Set xs) x"
  by (simp add: new_Set_def)

lemma set_new_Set: "set (new_Set xs) = set xs"
  by (induction xs rule: rev_induct) (auto simp: new_Set_snoc Set_add_def new_Set_def)

lemma distinct_new_Set: "distinct (new_Set xs)"
  by (induction xs rule: rev_induct) (auto simp: new_Set_snoc Set_add_def new_Set_def)

lemma new_Set_eq_Nil: "new_Set xs = [] \<longleftrightarrow> xs = []"
  using set_new_Set [of xs] by (metis set_empty)

lemma length_map_idx [simp]: "length (map_idx f xs) = length xs"
  by (simp add: map_idx_def)

lemma nth_map_idx [simp]: "i < length xs \<Longrightarrow> map_idx f xs ! i = f (xs ! i) i"
  by (simp add: map_idx_def nth_enumerate_eq)

lemma map_idx_Nil [simp]: "map_idx f [] = []"
  by (simp add: map_idx_def)

lemma map_idx_eq_Nil: "map_idx f xs = [] \<longleftrightarrow> xs = []"
  using length_map_idx [of f xs] by (metis length_0_conv)

lemma selection_ok_handleToggleSheet:
  "selection_ok (selectedSheetsMap st) \<Longrightarrow>
   selection_ok (selectedSheetsMap (handleToggleSheet f s st))"
  by (simp add: handleToggleSheet_def Let_def Set_size_0 selection_ok_Map_delete
      selection_ok_Map_set)

lemma selection_ok_handleDataLoaded: "selection_ok (selectedSheetsMap (handleDataLoaded d st))"
  by (simp add: handleDataLoaded_def selection_ok_def new_Set_def Set_add_def)

lemma selection_ok_reset: "selection_ok (selectedSheetsMap (reset st))"
  by (simp add: reset_def selection_ok_def)

text \<open>
  \<open>handleToggleFile\<close> keeps the invariant as long as every loaded file has a sheet.
\<close>

lemma selection_ok_handleToggleFile:
  assumes ok: "selection_ok (selectedSheetsMap st)"
    and run: "handleToggleFile f st = Inr st'"
    and files: "\<And>fds. fileDatas st = Some fds \<Longrightarrow> list_all (\<lambda>file. sheets file \<noteq> []) fds"
  shows "selection_ok (selectedSheetsMap st')"
proof (cases "fileDatas st")
  case None
  with run ok show ?thesis by (simp add: handleToggleFile_def)
next
  case (Some fds)
  show ?thesis
  proof (cases "at_index fds f")
    case None
    with run Some show ?thesis by (simp add: handleToggleFile_def)
  next
    case (Some file')
    then have "file' \<in> set fds"
      by (auto simp: at_index_def split: if_splits)
    with files [OF \<open>fileDatas st = Some fds\<close>] have "sheets file' \<noteq> []"
      by (simp add: list_all_iff)
    then have ne: "new_Set (map_idx (\<lambda>_ i. i) (sheets file')) \<noteq> []"
      by (simp add: new_Set_eq_Nil map_idx_eq_Nil)
    from run Some \<open>fileDatas st = Some fds\<close> ok ne show ?thesis
      by (auto simp: handleToggleFile_def Let_def selection_ok_Map_delete selection_ok_Map_set
          split: if_splits)
  qed
qed

text \<open>
  Claim C4. The claim: in every reachable state each file index of \<open>selectedSheetsMap\<close> has
  a non-empty set of sheet indices. \<open>handleToggleSheet\<close>, \<open>handleDataLoaded\<close> and \<open>reset\<close>
  keep that (the lemmas above), and so does \<open>handleToggleFile\<close> on files that have sheets.
  On a file with no sheet it does not: after loading one such file, the selection is
  \<open>{0 \<mapsto> {0}}\<close>, of size 1, which is not the file's sheet count 0, so \<open>handleToggleFile\<close>
  stores the set of all indices of the file, the empty set, under key 0.
\<close>

theorem C4_handleToggleFile_stores_empty_set:
  "map_sum id selectedSheetsMap
     (handleToggleFile 0
        (handleDataLoaded [\<lparr>file_name = [], sheets = [], activeSheetIndex = 0\<rparr>]
           (initial_App :: unit App))) = Inr [(0, [])]
   \<and> selection_ok (selectedSheetsMap
        (handleDataLoaded [\<lparr>file_name = [], sheets = [], activeSheetIndex = 0\<rparr>]
           (initial_App :: unit App)))
   \<and> \<not> selection_ok [(0 :: nat, [] :: nat list)]"
  by (simp add: handleToggleFile_def handleDataLoaded_def initial_App_def at_index_def
      new_Set_def Set_add_def Set_size_def map_idx_def Let_def selection_ok_def)

section \<open>One execution of a step\<close>

lemma exn_all_eq [simp]: "(e :: exn) = TypeError"
  by (cases e) simp

lemma executeStep_idle:
  "executeStep an [] index cur (prev, w) = ([ExecStart index, ExecEnd index], prev, Settled w)"
  by (simp add: executeStep_def)

text \<open>The five ways in which \<open>executeStep\<close> can go.\<close>

lemma executeStep_shapes:
  assumes "executeStep an act index cur (prev, w) = (tr, fin, c)"
  shows "(act = [] \<and> tr = [ExecStart index, ExecEnd index] \<and> fin = prev \<and> c = Settled w)
    \<or> (act \<noteq> [] \<and> (\<exists>step sample cols res w'.
          at_index cur index = Some step
        \<and> flatMap_sheets (\<lambda>s. take 50 (rows s)) act = Inr sample
        \<and> flatMap_sheets columns act = Inr cols
        \<and> an w (title step) (description step) sample (new_Set cols) = (Fulfilled res, w')
        \<and> tr = [ExecStart index, StepsSet (mark index (\<lambda>s. s\<lparr>status := Analyzing\<rparr>) prev),
                AnalyzeCall index (title step) (description step) sample (new_Set cols),
                AnalyzeReturned index res, StepsSet fin, ExecEnd index]
        \<and> fin = mark index (\<lambda>s. s\<lparr>status := Done, result := Some res\<rparr>)
                   (mark index (\<lambda>s. s\<lparr>status := Analyzing\<rparr>) prev)
        \<and> c = Settled w'))
    \<or> (act \<noteq> [] \<and> (\<exists>step sample cols w'.
          at_index cur index = Some step
        \<and> flatMap_sheets (\<lambda>s. take 50 (rows s)) act = Inr sample
        \<and> flatMap_sheets columns act = Inr cols
        \<and> an w (title step) (description step) sample (new_Set cols) = (Rejected, w')
        \<and> tr = [ExecStart index, StepsSet (mark index (\<lambda>s. s\<lparr>status := Analyzing\<rparr>) prev),
                AnalyzeCall index (title step) (description step) sample (new_Set cols),
                AnalyzeThrew index, StepsSet fin, ExecEnd index]
        \<and> fin = mark index (\<lambda>s. s\<lparr>status := Error\<rparr>)
                   (mark index (\<lambda>s. s\<lparr>status := Analyzing\<rparr>) prev)
        \<and> c = Settled w'))
    \<or> (act \<noteq> [] \<and> (\<exists>step sample cols w'.
          at_index cur index = Some step
        \<and> flatMap_sheets (\<lambda>s. take 50 (rows s)) act = Inr sample
        \<and> flatMap_sheets columns act = Inr cols
        \<and> an w (title step) (description step) sample (new_Set cols) = (Unsettled, w')
        \<and> tr = [ExecStart index, StepsSet fin,
                AnalyzeCall index (title step) (description step) sample (new_Set cols)]
        \<and> fin = mark index (\<lambda>s. s\<lparr>status := Analyzing\<rparr>) prev
        \<and> c = Suspended))
    \<or> (act \<noteq> [] \<and> (at_index cur index = None
            \<or> flatMap_sheets (\<lambda>s. take 50 (rows s)) act = Inl TypeError
            \<or> flatMap_sheets columns act = Inl TypeError)
        \<and> tr = [ExecStart index, StepsSet (mark index (\<lambda>s. s\<lparr>status := Analyzing\<rparr>) prev),
                StepsSet fin, ExecEnd index]
        \<and> fin = mark index (\<lambda>s. s\<lparr>status := Error\<rparr>)
                   (mark index (\<lambda>s. s\<lparr>status := Analyzing\<rparr>) prev)
        \<and> c = Settled w)"
  using assms
  by (auto simp: executeStep_def Let_def on_catch_def mark_def
      split: sum.splits option.splits outcome.splits prod.splits if_splits exn.splits)

lemma length_mark [simp]: "length (mark i g xs) = length xs"
  by (simp add: mark_def)

lemma nth_mark [simp]:
  "j < length xs \<Longrightarrow> mark i g xs ! j = (if j = i then g (xs ! j) else xs ! j)"
  by (simp add: mark_def)

lemma steps_written_simps [simp]:
  "steps_written [] = []"
  "steps_written (StepsSet s # tr) = s # steps_written tr"
  "steps_written (ExecStart i # tr) = steps_written tr"
  "steps_written (ExecEnd i # tr) = steps_written tr"
  "steps_written (AnalyzeCall i t d r cs # tr) = steps_written tr"
  "steps_written (AnalyzeReturned i res # tr) = steps_written tr"
  "steps_written (AnalyzeThrew i # tr) = steps_written tr"
  by (simp_all add: steps_written_def)

lemma steps_written_append [simp]:
  "steps_written (tr @ tr') = steps_written tr @ steps_written tr'"
  by (simp add: steps_written_def)

lemma status_history_append [simp]:
  "status_history i (tr @ tr') = status_history i tr @ status_history i tr'"
  by (simp add: status_history_def)

text \<open>
  Every value written by one execution differs from \<open>prev\<close> at \<open>index\<close> only, and never
  in id, title or description.
\<close>

lemma executeStep_frame:
  assumes "executeStep an act index cur (prev, w) = (tr, fin, c)"
    and "s \<in> set (steps_written tr) \<or> s = fin"
  shows "length s = length prev"
    and "j < length prev \<Longrightarrow> j \<noteq> index \<Longrightarrow> s ! j = prev ! j"
    and "j < length prev \<Longrightarrow> id_field (s ! j) = id_field (prev ! j)"
    and "j < length prev \<Longrightarrow> title (s ! j) = title (prev ! j)"
    and "j < length prev \<Longrightarrow> description (s ! j) = description (prev ! j)"
  using executeStep_shapes [OF assms(1)] assms(2)
  by (elim disjE exE conjE; auto)+

lemma executeStep_history_self:
  assumes "executeStep an act index cur (prev, w) = (tr, fin, c)"
    and "index < length prev"
  shows "(status_history index tr = [] \<and> fin = prev)
       \<or> (status_history index tr = [Analyzing] \<and> status (fin ! index) = Analyzing
            \<and> c = Suspended)
       \<or> (status_history index tr = [Analyzing, Done] \<and> status (fin ! index) = Done)
       \<or> (status_history index tr = [Analyzing, Error] \<and> status (fin ! index) = Error)"
  using executeStep_shapes [OF assms(1)] assms(2)
  by (elim disjE exE conjE; simp add: status_history_def at_index_def)

lemma executeStep_history_other:
  assumes "executeStep an act index cur (prev, w) = (tr, fin, c)"
    and "i < length prev" and "i \<noteq> index"
  shows "status_history i tr = replicate (length (steps_written tr)) (status (prev ! i))"
  using executeStep_shapes [OF assms(1)] assms(2,3)
  by (elim disjE exE conjE; simp add: status_history_def at_index_def)

section \<open>The loop of runAnalysis\<close>

lemma run_steps_stop:
  "\<not> i < length init \<Longrightarrow> run_steps an act init i (steps, w) = ([], steps, Settled w)"
  by (simp add: run_steps.simps)

text \<open>Induction along the loop: it stops, it stays suspended in a step, or it goes on.\<close>

lemma run_steps_induct [consumes 1, case_names stop suspend continue]:
  assumes run: "run_steps an act init i (steps, w) = (tr, fin, c)"
    and stop: "\<And>i steps w. \<not> i < length init \<Longrightarrow> P i steps w [] steps (Settled w)"
    and suspend: "\<And>i steps w tr1 s1. i < length init \<Longrightarrow>
           executeStep an act i init (steps, w) = (tr1, s1, Suspended) \<Longrightarrow>
           P i steps w tr1 s1 Suspended"
    and continue: "\<And>i steps w tr1 s1 w1 tr2 fin c. i < length init \<Longrightarrow>
           executeStep an act i init (steps, w) = (tr1, s1, Settled w1) \<Longrightarrow>
           run_steps an act init (Suc i) (s1, w1) = (tr2, fin, c) \<Longrightarrow>
           P (Suc i) s1 w1 tr2 fin c \<Longrightarrow> P i steps w (tr1 @ tr2) fin c"
  shows "P i steps w tr fin c"
  using run
proof (induction "length init - i" arbitrary: i steps w tr fin c)
  case 0
  then have "\<not> i < length init" by simp
  with "0.prems" stop [of i steps w] show ?case
    by (simp add: run_steps_stop)
next
  case (Suc n)
  then have lt: "i < length init" by simp
  obtain tr1 s1 c1 where ex: "executeStep an act i init (steps, w) = (tr1, s1, c1)"
    by (metis prod_cases3)
  show ?case
  proof (cases c1)
    case Suspended
    with Suc.prems ex lt suspend [OF lt, of steps w tr1 s1] show ?thesis
      by (simp add: run_steps.simps [of an act init i])
  next
    case (Settled w1)
    obtain tr2 fin2 c2 where rec: "run_steps an act init (Suc i) (s1, w1) = (tr2, fin2, c2)"
      by (metis prod_cases3)
    from Suc.hyps(2) have "n = length init - Suc i" by simp
    then have ih: "P (Suc i) s1 w1 tr2 fin2 c2"
      using Suc.hyps(1) rec by blast
    from Suc.prems ex lt Settled rec have "tr = tr1 @ tr2" "fin = fin2" "c = c2"
      by (simp_all add: run_steps.simps [of an act init i])
    with continue [OF lt ex [unfolded Settled] rec ih] show ?thesis by simp
  qed
qed

section \<open>The lifecycle of a step\<close>

lemma chain_append:
  "successively P (a # h1) \<Longrightarrow> successively P (last (a # h1) # h2) \<Longrightarrow>
   successively P (a # h1 @ h2)"
  by (induction h1 arbitrary: a) (auto simp: successively_Cons)

lemma last_chain_append: "last (a # h1 @ h2) = last (last (a # h1) # h2)"
  by (induction h1 arbitrary: a) auto

lemma chain_replicate: "successively lifecycle_step (a # replicate n a)"
  by (induction n) (auto simp: lifecycle_step_def)

lemma last_replicate_Cons: "last (a # replicate n a) = a"
  by (induction n) auto

text \<open>One execution moves the status of its own step along the lifecycle and leaves the
  status of every other step.\<close>

lemma executeStep_chain:
  assumes ex: "executeStep an act index cur (prev, w) = (tr, fin, c)"
    and i: "i < length prev"
    and pend: "i = index \<Longrightarrow> status (prev ! i) = Pending \<or> status (prev ! i) = Analyzing"
  shows "successively lifecycle_step (status (prev ! i) # status_history i tr)
       \<and> last (status (prev ! i) # status_history i tr) = status (fin ! i)"
proof (cases "i = index")
  case True
  with executeStep_history_self [OF ex] i pend show ?thesis
    by (auto simp: lifecycle_step_def)
next
  case False
  from executeStep_history_other [OF ex i False] executeStep_frame(2) [OF ex _ i False, of fin]
  show ?thesis
    by (simp add: chain_replicate last_replicate_Cons)
qed

lemma run_steps_length:
  assumes "run_steps an act init i (steps, w) = (tr, fin, c)"
  shows "length fin = length steps"
  using assms
proof (induction rule: run_steps_induct)
  case (stop i steps w)
  show ?case by simp
next
  case (suspend i steps w tr1 s1)
  from executeStep_frame(1) [OF suspend(2), of s1] show ?case by simp
next
  case (continue i steps w tr1 s1 w1 tr2 fin c)
  from executeStep_frame(1) [OF continue(2), of s1] continue(4) show ?case by simp
qed

lemma run_steps_chain:
  assumes "run_steps an act init i (steps, w) = (tr, fin, c)"
  shows "length steps = length init \<Longrightarrow> j < length init \<Longrightarrow>
         (\<forall>k. i \<le> k \<and> k < length init \<longrightarrow> status (steps ! k) = Pending) \<Longrightarrow>
         successively lifecycle_step (status (steps ! j) # status_history j tr)
       \<and> last (status (steps ! j) # status_history j tr) = status (fin ! j)"
  using assms
proof (induction rule: run_steps_induct)
  case (stop i steps w)
  show ?case by (simp add: status_history_def)
next
  case (suspend i steps w tr1 s1)
  show ?case
    by (rule executeStep_chain [OF suspend(2)]) (use suspend in auto)
next
  case (continue i steps w tr1 s1 w1 tr2 fin c)
  have j: "j < length steps" using continue.prems by simp
  have one: "successively lifecycle_step (status (steps ! j) # status_history j tr1)
       \<and> last (status (steps ! j) # status_history j tr1) = status (s1 ! j)"
    by (rule executeStep_chain [OF continue(2) j]) (use continue in auto)
  have len: "length s1 = length init"
    using executeStep_frame(1) [OF continue(2), of s1] continue.prems by simp
  have pend: "\<forall>k. Suc i \<le> k \<and> k < length init \<longrightarrow> status (s1 ! k) = Pending"
  proof (intro allI impI)
    fix k assume k: "Suc i \<le> k \<and> k < length init"
    then have "s1 ! k = steps ! k"
      using executeStep_frame(2) [OF continue(2), of s1 k] continue.prems by simp
    with k continue.prems show "status (s1 ! k) = Pending" by simp
  qed
  from one have a: "successively lifecycle_step (status (steps ! j) # status_history j tr1)"
    and b: "last (status (steps ! j) # status_history j tr1) = status (s1 ! j)"
    by blast+
  from continue.IH [OF len continue.prems(2) pend]
  have c: "successively lifecycle_step (status (s1 ! j) # status_history j tr2)"
    and d: "last (status (s1 ! j) # status_history j tr2) = status (fin ! j)"
    by blast+
  have "successively lifecycle_step
          (status (steps ! j) # status_history j tr1 @ status_history j tr2)"
    by (rule chain_append [OF a]) (simp only: b c)
  moreover have "last (status (steps ! j) # status_history j tr1 @ status_history j tr2)
                   = status (fin ! j)"
    by (simp only: last_chain_append [of _ "status_history j tr1"] b d)
  ultimately show ?case
    by (simp only: status_history_append) 
qed

lemma append_eq_split:
  assumes "tr1 @ tr2 = pre @ e # post"
  shows "(\<exists>mid. tr1 = pre @ e # mid \<and> post = mid @ tr2)
       \<or> (\<exists>mid. pre = tr1 @ mid \<and> tr2 = mid @ e # post)"
  using assms
  by (auto simp: append_eq_append_conv2 append_eq_Cons_conv Cons_eq_append_conv)

lemma run_steps_below:
  assumes "run_steps an act init i (steps, w) = (tr, fin, c)"
  shows "j < i \<Longrightarrow> j < length steps \<Longrightarrow> fin ! j = steps ! j"
  using assms
proof (induction rule: run_steps_induct)
  case (stop i steps w)
  show ?case by simp
next
  case (suspend i steps w tr1 s1)
  then show ?case
    using executeStep_frame(2) [OF suspend(2), of s1 j] by simp
next
  case (continue i steps w tr1 s1 w1 tr2 fin c)
  have "s1 ! j = steps ! j"
    using executeStep_frame(2) [OF continue(2), of s1 j] continue.prems by simp
  moreover have "length s1 = length steps"
    using executeStep_frame(1) [OF continue(2), of s1] by simp
  ultimately show ?case
    using continue.IH continue.prems by simp
qed

text \<open>Where the call sits in the trace of one execution.\<close>

lemma executeStep_call:
  assumes ex: "executeStep an act index cur (prev, w) = (tr, fin, c)"
    and tr: "tr = pre @ AnalyzeCall j t d r cs # post"
  shows "j = index \<and> pre = [ExecStart index, StepsSet (mark index (\<lambda>s. s\<lparr>status := Analyzing\<rparr>) prev)]"
  using executeStep_shapes [OF ex] tr
  by (elim disjE exE conjE; simp add: Cons_eq_append_conv; fastforce simp: Cons_eq_append_conv)

lemma executeStep_settled_event:
  assumes ex: "executeStep an act index cur (prev, w) = (tr, fin, c)"
    and lt: "index < length prev"
  shows "AnalyzeReturned j res \<in> set tr \<Longrightarrow>
           j = index \<and> status (fin ! j) = Done \<and> result (fin ! j) = Some res"
    and "AnalyzeThrew j \<in> set tr \<Longrightarrow> j = index \<and> status (fin ! j) = Error"
  using executeStep_shapes [OF ex] lt
  by (elim disjE exE conjE; auto)+

lemma run_steps_call:
  assumes "run_steps an act init i (steps, w) = (tr, fin, c)"
  shows "length steps = length init \<Longrightarrow> tr = pre @ AnalyzeCall j t d r cs # post \<Longrightarrow>
         i \<le> j \<and> j < length init \<and> (\<exists>h. status_history j pre = h @ [Analyzing])"
  using assms
proof (induction arbitrary: pre post rule: run_steps_induct)
  case (stop i steps w)
  then show ?case by simp
next
  case (suspend i steps w tr1 s1)
  from executeStep_call [OF suspend(2) suspend.prems(2)] suspend(1) suspend.prems(1)
  show ?case by (simp add: status_history_def at_index_def)
next
  case (continue i steps w tr1 s1 w1 tr2 fin c)
  have len: "length s1 = length init"
    using executeStep_frame(1) [OF continue(2), of s1] continue.prems by simp
  from append_eq_split [OF continue.prems(2)]
  show ?case
  proof (elim disjE exE conjE)
    fix mid assume "tr1 = pre @ AnalyzeCall j t d r cs # mid"
    from executeStep_call [OF continue(2) this] continue(1) continue.prems(1)
    show ?thesis by (simp add: status_history_def at_index_def)
  next
    fix mid assume pre: "pre = tr1 @ mid" and "tr2 = mid @ AnalyzeCall j t d r cs # post"
    from continue.IH [OF len this(2)] pre show ?thesis by auto
  qed
qed

lemma run_steps_settled_event:
  assumes "run_steps an act init i (steps, w) = (tr, fin, c)"
  shows "length steps = length init \<Longrightarrow> AnalyzeReturned j res \<in> set tr \<Longrightarrow>
           status (fin ! j) = Done \<and> result (fin ! j) = Some res"
    and "length steps = length init \<Longrightarrow> AnalyzeThrew j \<in> set tr \<Longrightarrow> status (fin ! j) = Error"
  using assms
proof (induction rule: run_steps_induct)
  case (stop i steps w)
  { case 1 then show ?case by simp }
  { case 2 then show ?case by simp }
next
  case (suspend i steps w tr1 s1)
  { case 1 with executeStep_settled_event(1) [OF suspend(2)] suspend(1) show ?case by simp }
  { case 2 with executeStep_settled_event(2) [OF suspend(2)] suspend(1) show ?case by simp }
next
  case (continue i steps w tr1 s1 w1 tr2 fin c)
  have len: "length s1 = length init" if "length steps = length init"
    using executeStep_frame(1) [OF continue(2), of s1] that by simp
  { case 1
    show ?case
    proof (cases "AnalyzeReturned j res \<in> set tr2")
      case True
      with continue.IH(1) len 1 show ?thesis by simp
    next
      case False
      with 1 have "AnalyzeReturned j res \<in> set tr1" by simp
      with executeStep_settled_event(1) [OF continue(2), of j res] continue(1) 1
      have e: "j = i \<and> status (s1 ! j) = Done \<and> result (s1 ! j) = Some res" by auto
      then have "fin ! j = s1 ! j"
        using run_steps_below [OF continue(3), of j] continue(1) len 1 by simp
      with e show ?thesis by auto
    qed }
  { case 2
    show ?case
    proof (cases "AnalyzeThrew j \<in> set tr2")
      case True
      with continue.IH(2) len 2 show ?thesis by simp
    next
      case False
      with 2 have "AnalyzeThrew j \<in> set tr1" by simp
      with executeStep_settled_event(2) [OF continue(2), of j] continue(1) 2
      have e: "j = i \<and> status (s1 ! j) = Error" by auto
      then have "fin ! j = s1 ! j"
        using run_steps_below [OF continue(3), of j] continue(1) len 2 by simp
      with e show ?thesis by auto
    qed }
qed

lemma runAnalysis_run:
  assumes "runAnalysis an now (Some cs) st w = (tr, st', c)" and "cs \<noteq> []"
  shows "\<exists>tr'. run_steps an (activeSheets st) (map_idx (parse_step now) cs) 0
                 (map_idx (parse_step now) cs, w) = (tr', stepAnalyses st', c)
             \<and> tr = StepsSet (map_idx (parse_step now) cs) # tr'
             \<and> st' = st\<lparr>stepAnalyses := stepAnalyses st'\<rparr>"
  using assms
  by (auto simp: runAnalysis_def Let_def split: prod.splits)

lemma status_parse_step [simp]: "status (parse_step now s idx) = Pending"
  by (simp add: parse_step_def Let_def)

lemma result_parse_step [simp]: "result (parse_step now s idx) = None"
  by (simp add: parse_step_def Let_def)

lemma status_history_Cons_StepsSet:
  "i < length s \<Longrightarrow> status_history i (StepsSet s # tr) = status (s ! i) # status_history i tr"
  by (simp add: status_history_def at_index_def)

lemma executeStep_final_status:
  assumes "executeStep an act index cur (prev, w) = (tr, fin, Settled w')"
    and "act \<noteq> []" and "index < length prev"
  shows "status (fin ! index) = Done \<or> status (fin ! index) = Error"
  using executeStep_shapes [OF assms(1)] assms(2,3)
  by (elim disjE exE conjE; simp)

lemma run_steps_final_status:
  assumes "run_steps an act init i (steps, w) = (tr, fin, c)"
  shows "c \<noteq> Suspended \<Longrightarrow> act \<noteq> [] \<Longrightarrow> length steps = length init \<Longrightarrow>
         i \<le> j \<Longrightarrow> j < length init \<Longrightarrow>
         status (fin ! j) = Done \<or> status (fin ! j) = Error"
  using assms
proof (induction rule: run_steps_induct)
  case (stop i steps w)
  then show ?case by simp
next
  case (suspend i steps w tr1 s1)
  then show ?case by simp
next
  case (continue i steps w tr1 s1 w1 tr2 fin c)
  have len: "length s1 = length init"
    using executeStep_frame(1) [OF continue(2), of s1] continue.prems by simp
  show ?case
  proof (cases "j = i")
    case True
    have "status (s1 ! i) = Done \<or> status (s1 ! i) = Error"
      using executeStep_final_status [OF continue(2)] continue.prems continue(1) by simp
    moreover have "fin ! i = s1 ! i"
      using run_steps_below [OF continue(3), of i] len continue(1) by simp
    ultimately show ?thesis using True by auto
  next
    case False
    with continue.IH continue.prems len show ?thesis by simp
  qed
qed


lemmas example_defs =
  example_run_def runAnalysis_def example_steps_def example_App_def handleDataLoaded_def
  initial_App_def activeSheets_def example_sheet_def new_Set_def Set_add_def map_idx_def
  parse_step_def at_index_def colon_def trim_def is_space_def toString.simps
  default_title_def step_prefix_def Let_def run_steps.simps executeStep_def
  example_analyzer_def on_catch_def example_result_def

lemma example_history:
  "status_history 1 (fst example_run) = [Pending, Pending, Pending, Analyzing, Error]"
  "status_history 0 (fst example_run) = [Pending, Analyzing, Done, Done, Done]"
  by (simp_all add: example_defs status_history_def)


section \<open>Serial execution\<close>

lemma serial_run_append:
  "serial_run s (a @ b) = (case serial_run s a of None \<Rightarrow> None | Some s' \<Rightarrow> serial_run s' b)"
  by (induction a arbitrary: s) (auto split: option.splits)

lemma executeStep_serial:
  assumes "executeStep an act index cur (prev, w) = (tr, fin, c)"
  shows "serial_run (index, Idle) tr =
           Some (if c = Suspended then (index, InFlight) else (Suc index, Idle))"
  using executeStep_shapes [OF assms]
  by (elim disjE exE conjE; simp)

lemma run_steps_serial:
  assumes "run_steps an act init i (steps, w) = (tr, fin, c)"
  shows "i \<le> length init \<Longrightarrow>
         (c \<noteq> Suspended \<longrightarrow> serial_run (i, Idle) tr = Some (length init, Idle))
       \<and> (c = Suspended \<longrightarrow>
            (\<exists>k. i \<le> k \<and> k < length init \<and> serial_run (i, Idle) tr = Some (k, InFlight)))"
  using assms
proof (induction rule: run_steps_induct)
  case (stop i steps w)
  then show ?case by simp
next
  case (suspend i steps w tr1 s1)
  with executeStep_serial [OF suspend(2)] show ?case by auto
next
  case (continue i steps w tr1 s1 w1 tr2 fin c)
  from executeStep_serial [OF continue(2)]
  have "serial_run (i, Idle) (tr1 @ tr2) = serial_run (Suc i, Idle) tr2"
    by (simp add: serial_run_append)
  moreover have "Suc i \<le> length init" using continue(1) by simp
  ultimately show ?case
    using continue.IH by (auto intro: Suc_leD)
qed

lemma serial_run_in_flight:
  "serial_run s tr = Some s' \<Longrightarrow>
   in_flight tr = (if snd s' = InFlight then 1 else 0) - (if snd s = InFlight then 1 else 0)"
proof (induction tr arbitrary: s)
  case Nil
  then show ?case by simp
next
  case (Cons e tr)
  obtain k ph where s: "s = (k, ph)" by (cases s)
  from Cons.prems obtain s1 where st: "serial_step s e = Some s1" and rest: "serial_run s1 tr = Some s'"
    by (auto split: option.splits)
  from Cons.IH [OF rest] st show ?case
    unfolding s by (cases e) (auto split: if_splits)
qed

lemma serial_run_prefix:
  "serial_run s (pre @ post) = Some s' \<Longrightarrow> \<exists>s''. serial_run s pre = Some s''"
  by (simp add: serial_run_append split: option.splits)

lemma serial_run_in_flight_prefix:
  assumes "serial_run (k, Idle) tr = Some s'" and "tr = pre @ post"
  shows "in_flight pre = 0 \<or> in_flight pre = 1"
proof -
  from assms serial_run_prefix [of "(k, Idle)" pre post s'] obtain s'' where
    "serial_run (k, Idle) pre = Some s''" by blast
  from serial_run_in_flight [OF this] show ?thesis by simp
qed

lemma executeStep_start:
  assumes ex: "executeStep an act index cur (prev, w) = (tr, fin, c)"
  shows "tr = pre @ ExecStart k # post \<Longrightarrow> pre = [] \<and> k = index"
    and "c \<noteq> Suspended \<Longrightarrow> \<exists>tr0. tr = tr0 @ [ExecEnd index]"
    and "started tr = [index]"
  using executeStep_shapes [OF ex]
  by (elim disjE exE conjE; simp add: Cons_eq_append_conv started_def; fastforce simp: Cons_eq_append_conv)+

lemma run_steps_start:
  assumes "run_steps an act init i (steps, w) = (tr, fin, c)"
  shows "tr = pre @ ExecStart k # post \<Longrightarrow>
         (pre = [] \<and> k = i) \<or> (\<exists>pre' j. k = Suc j \<and> pre = pre' @ [ExecEnd j])"
  using assms
proof (induction arbitrary: pre post rule: run_steps_induct)
  case (stop i steps w)
  then show ?case by simp
next
  case (suspend i steps w tr1 s1)
  from executeStep_start(1) [OF suspend(2) suspend.prems] show ?case by simp
next
  case (continue i steps w tr1 s1 w1 tr2 fin c)
  from executeStep_start(2) [OF continue(2)] obtain tr0 where tr0: "tr1 = tr0 @ [ExecEnd i]"
    by auto
  from append_eq_split [OF continue.prems]
  show ?case
  proof (elim disjE exE conjE)
    fix mid assume "tr1 = pre @ ExecStart k # mid"
    from executeStep_start(1) [OF continue(2) this] show ?thesis by simp
  next
    fix mid assume pre: "pre = tr1 @ mid" and "tr2 = mid @ ExecStart k # post"
    from continue.IH [OF this(2)] show ?thesis
    proof (elim disjE exE conjE)
      assume "mid = []" "k = Suc i"
      with pre tr0 show ?thesis by simp
    next
      fix pre' j assume "k = Suc j" "mid = pre' @ [ExecEnd j]"
      with pre have "pre = (tr1 @ pre') @ [ExecEnd j]" by simp
      with \<open>k = Suc j\<close> show ?thesis by blast
    qed
  qed
qed

lemma started_append [simp]: "started (a @ b) = started a @ started b"
  by (simp add: started_def)

lemma run_steps_started:
  assumes "run_steps an act init i (steps, w) = (tr, fin, c)"
  shows "i \<le> length init \<Longrightarrow>
         \<exists>m. i \<le> m \<and> m \<le> length init \<and> started tr = [i..<m] \<and> (c \<noteq> Suspended \<longrightarrow> m = length init)"
  using assms
proof (induction rule: run_steps_induct)
  case (stop i steps w)
  then show ?case by (simp add: started_def)
next
  case (suspend i steps w tr1 s1)
  from executeStep_start(3) [OF suspend(2)] suspend(1) show ?case
    by (intro exI [of _ "Suc i"]) simp
next
  case (continue i steps w tr1 s1 w1 tr2 fin c)
  from continue.IH continue(1) obtain m where
    m: "Suc i \<le> m" "m \<le> length init" "started tr2 = [Suc i..<m]" "c \<noteq> Suspended \<longrightarrow> m = length init"
    by auto
  from executeStep_start(3) [OF continue(2)] m have "started (tr1 @ tr2) = [i..<m]"
    by (simp add: upt_conv_Cons)
  with m show ?case by (intro exI [of _ m]) simp
qed

text \<open>
  Claim C2. \<open>runAnalysis\<close> on a non-empty list runs its steps one at a time, in list
  order. The trace is accepted by the seriality monitor from index 0: it ends with all
  steps finished, or suspended inside the one step whose call never settles. On every
  prefix of the trace at most one call of \<open>analyzeSingleStep\<close> is unsettled.
  \<open>executeStep\<close> for step \<open>j + 1\<close> starts right after the end of \<open>executeStep\<close> for step
  \<open>j\<close>. The executions started are those of \<open>0, 1, 2, ...\<close> in this order, all of them
  when the handler runs to its end.
\<close>

theorem C2_serial_execution:
  assumes run: "runAnalysis an now (Some cs) st w = (tr, st', c)" and ne: "cs \<noteq> []"
  shows "(c \<noteq> Suspended \<longrightarrow> serial_run (0, Idle) tr = Some (length cs, Idle))
       \<and> (c = Suspended \<longrightarrow>
            (\<exists>k. k < length cs \<and> serial_run (0, Idle) tr = Some (k, InFlight)))
       \<and> (\<forall>pre post. tr = pre @ post \<longrightarrow> in_flight pre = 0 \<or> in_flight pre = 1)
       \<and> (\<forall>pre j post. tr = pre @ ExecStart (Suc j) # post \<longrightarrow>
            (\<exists>pre'. pre = pre' @ [ExecEnd j]))
       \<and> (\<exists>m. m \<le> length cs \<and> started tr = [0..<m] \<and> (c \<noteq> Suspended \<longrightarrow> m = length cs))"
proof -
  let ?init = "map_idx (parse_step now) cs"
  from runAnalysis_run [OF run ne] obtain tr' where
    rs: "run_steps an (activeSheets st) ?init 0 (?init, w) = (tr', stepAnalyses st', c)"
    and tr: "tr = StepsSet ?init # tr'"
    by blast
  have le: "0 \<le> length ?init" by simp
  from run_steps_serial [OF rs le]
  have mon: "c \<noteq> Suspended \<longrightarrow> serial_run (0, Idle) tr = Some (length cs, Idle)"
    and sus: "c = Suspended \<longrightarrow>
            (\<exists>k. k < length cs \<and> serial_run (0, Idle) tr = Some (k, InFlight))"
    by (auto simp: tr)
  from mon sus obtain s' where acc: "serial_run (0, Idle) tr = Some s'"
    by (cases "c = Suspended") auto
  have fl: "in_flight pre = 0 \<or> in_flight pre = 1" if "tr = pre @ post" for pre post
    using serial_run_in_flight_prefix [OF acc that] .
  have st: "\<exists>pre'. pre = pre' @ [ExecEnd j]" if "tr = pre @ ExecStart (Suc j) # post" for pre j post
  proof -
    from that tr obtain pre0 where pre: "pre = StepsSet ?init # pre0"
      and tr': "tr' = pre0 @ ExecStart (Suc j) # post"
      by (cases pre) auto
    from run_steps_start [OF rs tr'] obtain pre' where "pre0 = pre' @ [ExecEnd j]"
      by auto
    with pre have "pre = (StepsSet ?init # pre') @ [ExecEnd j]" by simp
    then show ?thesis by blast
  qed
  from run_steps_started [OF rs le]
  have sd: "\<exists>m. m \<le> length cs \<and> started tr = [0..<m] \<and> (c \<noteq> Suspended \<longrightarrow> m = length cs)"
    by (auto simp: tr started_def)
  from mon sus fl st sd show ?thesis by blast
qed

lemma example_serial:
  "serial_run (0, Idle) (fst example_run) = Some (2, Idle)"
  "snd (snd example_run) \<noteq> Suspended"
  "started (fst example_run) = [0, 1]"
  by (simp_all add: example_defs started_def)

theorem C2_serial_execution_witness:
  "example_steps \<noteq> []
   \<and> serial_run (0, Idle) (fst example_run) = Some (length example_steps, Idle)
   \<and> started (fst example_run) = [0, 1]
   \<and> (in_flight (take 4 (fst example_run)) = 0 \<or> in_flight (take 4 (fst example_run)) = 1)"
proof -
  have run: "runAnalysis example_analyzer (\<lambda>i. 17) (Some example_steps) example_App 0
               = (fst example_run, fst (snd example_run), snd (snd example_run))"
    by (simp add: example_run_def)
  have h1: "example_steps \<noteq> []"
    by (simp add: example_steps_def)
  have split: "fst example_run = take 4 (fst example_run) @ drop 4 (fst example_run)"
    by simp
  from C2_serial_execution [OF run h1] example_serial(2)
  have "serial_run (0, Idle) (fst example_run) = Some (length example_steps, Idle)"
    and "\<forall>pre post. fst example_run = pre @ post \<longrightarrow> in_flight pre = 0 \<or> in_flight pre = 1"
    by blast+
  with split have "serial_run (0, Idle) (fst example_run) = Some (length example_steps, Idle)"
    and "in_flight (take 4 (fst example_run)) = 0 \<or> in_flight (take 4 (fst example_run)) = 1"
    by blast+
  with h1 example_serial(3) show ?thesis by simp
qed

section \<open>Re-analysis of one step\<close>

lemma findIndex_from_None:
  "findIndex_from n p xs = None \<longleftrightarrow> (\<forall>x \<in> set xs. \<not> p x)"
  by (induction xs arbitrary: n) auto

lemma findIndex_from_Some:
  "findIndex_from n p xs = Some k \<longleftrightarrow>
     (n \<le> k \<and> k - n < length xs \<and> p (xs ! (k - n)) \<and> (\<forall>j < k - n. \<not> p (xs ! j)))"
proof (induction xs arbitrary: n)
  case Nil
  then show ?case by simp
next
  case (Cons x xs)
  show ?case
  proof (cases "p x")
    case True
    have "k = n" if r: "n \<le> k \<and> k - n < length (x # xs) \<and> p ((x # xs) ! (k - n))
                     \<and> (\<forall>j<k - n. \<not> p ((x # xs) ! j))"
    proof (rule ccontr)
      assume "k \<noteq> n"
      with r have "0 < k - n" by simp
      with r have "\<not> p ((x # xs) ! 0)" by blast
      with True show False by simp
    qed
    with True show ?thesis by auto
  next
    case False
    have "(Suc n \<le> k \<and> k - Suc n < length xs \<and> p (xs ! (k - Suc n)) \<and> (\<forall>j<k - Suc n. \<not> p (xs ! j)))
        = (n \<le> k \<and> k - n < length (x # xs) \<and> p ((x # xs) ! (k - n)) \<and> (\<forall>j<k - n. \<not> p ((x # xs) ! j)))"
      (is "?L = ?R")
    proof
      assume l: ?L
      then have kn: "k - n = Suc (k - Suc n)" by arith
      have "\<not> p ((x # xs) ! j)" if "j < k - n" for j
        using that l False kn by (cases j) auto
      with l kn show ?R by auto
    next
      assume r: ?R
      with False have "k - n \<noteq> 0" by (metis nth_Cons_0)
      then have kn: "k - n = Suc (k - Suc n)" by arith
      have "\<not> p (xs ! j)" if "j < k - Suc n" for j
      proof -
        from that kn have "Suc j < k - n" by simp
        with r have "\<not> p ((x # xs) ! Suc j)" by blast
        then show ?thesis by simp
      qed
      with r kn show ?L by auto
    qed
    with False Cons.IH [of "Suc n"] show ?thesis by simp
  qed
qed

lemma findIndex_None: "findIndex p xs = None \<longleftrightarrow> (\<forall>x \<in> set xs. \<not> p x)"
  by (simp add: findIndex_def findIndex_from_None)

lemma findIndex_Some:
  "findIndex p xs = Some k \<longleftrightarrow> (k < length xs \<and> p (xs ! k) \<and> (\<forall>j < k. \<not> p (xs ! j)))"
  by (simp add: findIndex_def findIndex_from_Some)

text \<open>\<open>handleReAnalyzeStep\<close> when the id is found at \<open>index\<close>.\<close>

lemma handleReAnalyzeStep_found:
  assumes "handleReAnalyzeStep an id' nt nd st w = (tr, st', c)"
    and "findIndex (\<lambda>s. id_field s = id') (stepAnalyses st) = Some index"
  shows "\<exists>tr'. executeStep an (activeSheets st) index
                  ((stepAnalyses st) [index := (stepAnalyses st ! index)
                     \<lparr>title := nt, description := nd, status := Analyzing\<rparr>])
                  ((stepAnalyses st) [index := (stepAnalyses st ! index)
                     \<lparr>title := nt, description := nd, status := Analyzing\<rparr>], w)
                = (tr', stepAnalyses st', c)
             \<and> tr = StepsSet ((stepAnalyses st) [index := (stepAnalyses st ! index)
                     \<lparr>title := nt, description := nd, status := Analyzing\<rparr>]) # tr'
             \<and> st' = st\<lparr>stepAnalyses := stepAnalyses st'\<rparr>"
  using assms
  by (auto simp: handleReAnalyzeStep_def Let_def split: prod.splits)

lemma handleReAnalyzeStep_not_found:
  assumes "findIndex (\<lambda>s. id_field s = id') (stepAnalyses st) = None"
  shows "handleReAnalyzeStep an id' nt nd st w = ([], st, Settled w)"
  using assms by (simp add: handleReAnalyzeStep_def)

text \<open>
  Claim C3. \<open>handleReAnalyzeStep(id, newTitle, newDescription)\<close>: if no step has the id,
  nothing is written and the state is unchanged. If \<open>index\<close> is the first position whose
  step has the id, then every value written to \<open>stepAnalyses\<close> (the initial update and
  those of \<open>executeStep\<close>) and the final value have the old length and hold, at every
  position other than \<open>index\<close>, the very step that was there, with its id, title,
  description, status and result; the files and the selection are unchanged too.
\<close>

theorem C3_reanalyze_frame:
  assumes run: "handleReAnalyzeStep an id' newTitle newDescription st w = (tr, st', c)"
  shows "((\<forall>s \<in> set (stepAnalyses st). id_field s \<noteq> id') \<longrightarrow>
            tr = [] \<and> st' = st \<and> c = Settled w)
       \<and> (\<forall>index. index < length (stepAnalyses st)
             \<and> id_field (stepAnalyses st ! index) = id'
             \<and> (\<forall>j < index. id_field (stepAnalyses st ! j) \<noteq> id') \<longrightarrow>
            (\<forall>s. s \<in> set (steps_written tr) \<or> s = stepAnalyses st' \<longrightarrow>
               length s = length (stepAnalyses st)
             \<and> (\<forall>j < length (stepAnalyses st). j \<noteq> index \<longrightarrow> s ! j = stepAnalyses st ! j))
          \<and> fileDatas st' = fileDatas st \<and> selectedSheetsMap st' = selectedSheetsMap st)"
proof -
  have none: "tr = [] \<and> st' = st \<and> c = Settled w"
    if "\<forall>s \<in> set (stepAnalyses st). id_field s \<noteq> id'"
  proof -
    from that have "findIndex (\<lambda>s. id_field s = id') (stepAnalyses st) = None"
      by (simp add: findIndex_None)
    from handleReAnalyzeStep_not_found [OF this, of an newTitle newDescription w] run
    show ?thesis by simp
  qed
  have some: "(\<forall>s. s \<in> set (steps_written tr) \<or> s = stepAnalyses st' \<longrightarrow>
               length s = length (stepAnalyses st)
             \<and> (\<forall>j < length (stepAnalyses st). j \<noteq> index \<longrightarrow> s ! j = stepAnalyses st ! j))
          \<and> fileDatas st' = fileDatas st \<and> selectedSheetsMap st' = selectedSheetsMap st"
    if "index < length (stepAnalyses st) \<and> id_field (stepAnalyses st ! index) = id'
             \<and> (\<forall>j < index. id_field (stepAnalyses st ! j) \<noteq> id')" for index
  proof -
    from that have found: "findIndex (\<lambda>s. id_field s = id') (stepAnalyses st) = Some index"
      by (simp add: findIndex_Some)
    let ?upd = "(stepAnalyses st) [index := (stepAnalyses st ! index)
                     \<lparr>title := newTitle, description := newDescription, status := Analyzing\<rparr>]"
    from handleReAnalyzeStep_found [OF run found] obtain tr' where
      ex: "executeStep an (activeSheets st) index ?upd (?upd, w) = (tr', stepAnalyses st', c)"
      and tr: "tr = StepsSet ?upd # tr'"
      and st': "st' = st\<lparr>stepAnalyses := stepAnalyses st'\<rparr>"
      by blast
    have frame: "length s = length (stepAnalyses st)
             \<and> (\<forall>j < length (stepAnalyses st). j \<noteq> index \<longrightarrow> s ! j = stepAnalyses st ! j)"
      if "s \<in> set (steps_written tr) \<or> s = stepAnalyses st'" for s
    proof -
      from that consider "s = ?upd" | "s \<in> set (steps_written tr') \<or> s = stepAnalyses st'"
        by (auto simp: tr)
      then show ?thesis
      proof cases
        case 1
        then show ?thesis by simp
      next
        case 2
        from executeStep_frame(1) [OF ex 2] executeStep_frame(2) [OF ex 2]
        show ?thesis by simp
      qed
    qed
    from st' have "fileDatas st' = fileDatas st"
      by (metis App.select_convs(1) App.surjective App.update_convs(2))
    moreover from st' have "selectedSheetsMap st' = selectedSheetsMap st"
      by (metis App.select_convs(3) App.surjective App.update_convs(2))
    ultimately show ?thesis using frame by blast
  qed
  from none some show ?thesis by blast
qed

lemma example_done_steps:
  "stepAnalyses example_done =
     [\<lparr>id_field = step_prefix @ [0x31, 0x37, 0x2D, 0x30], title = [0x61],
        description = [0x62, 0x3A, 0x63], status = Done, result = Some example_result\<rparr>,
      \<lparr>id_field = step_prefix @ [0x31, 0x37, 0x2D, 0x31],
        title = [0x5206, 0x6790, 0x6B65, 0x9AA4, 0x20, 0x32],
        description = [0x20, 0x3A, 0x20], status = Error, result = None\<rparr>]"
  by (simp add: example_done_def example_defs)

lemma example_done_sheets: "activeSheets example_done = [Some example_sheet]"
  by (simp add: example_done_def example_defs)

lemmas rerun_defs =
  example_rerun_def handleReAnalyzeStep_def example_done_steps example_done_sheets
  findIndex_def step_prefix_def executeStep_def example_analyzer_def example_sheet_def
  new_Set_def Set_add_def map_idx_def at_index_def on_catch_def example_result_def Let_def

lemma example_rerun_steps:
  "stepAnalyses (fst (snd example_rerun)) =
     [\<lparr>id_field = step_prefix @ [0x31, 0x37, 0x2D, 0x30], title = [0x61],
        description = [0x62, 0x3A, 0x63], status = Done, result = Some example_result\<rparr>,
      \<lparr>id_field = step_prefix @ [0x31, 0x37, 0x2D, 0x31], title = [0x74],
        description = [0x64], status = Done, result = Some example_result\<rparr>]"
  by (simp add: rerun_defs)

theorem C3_reanalyze_frame_witness:
  "1 < length (stepAnalyses example_done)
   \<and> id_field (stepAnalyses example_done ! 1) = step_prefix @ [0x31, 0x37, 0x2D, 0x31]
   \<and> id_field (stepAnalyses example_done ! 0) \<noteq> step_prefix @ [0x31, 0x37, 0x2D, 0x31]
   \<and> length (stepAnalyses (fst (snd example_rerun))) = length (stepAnalyses example_done)
   \<and> stepAnalyses (fst (snd example_rerun)) ! 0 = stepAnalyses example_done ! 0
   \<and> stepAnalyses (fst (snd example_rerun)) ! 1 \<noteq> stepAnalyses example_done ! 1"
proof -
  have run: "handleReAnalyzeStep example_analyzer
     (step_prefix @ [0x31, 0x37, 0x2D, 0x31]) [0x74] [0x64] example_done 0
       = (fst example_rerun, fst (snd example_rerun), snd (snd example_rerun))"
    by (simp add: example_rerun_def)
  have hyp: "1 < length (stepAnalyses example_done)
     \<and> id_field (stepAnalyses example_done ! 1) = step_prefix @ [0x31, 0x37, 0x2D, 0x31]
     \<and> (\<forall>j < 1. id_field (stepAnalyses example_done ! j) \<noteq> step_prefix @ [0x31, 0x37, 0x2D, 0x31])"
    by (simp add: example_done_steps step_prefix_def)
  from C3_reanalyze_frame [OF run] hyp
  have "length (stepAnalyses (fst (snd example_rerun))) = length (stepAnalyses example_done)
      \<and> (\<forall>j < length (stepAnalyses example_done). j \<noteq> 1 \<longrightarrow>
            stepAnalyses (fst (snd example_rerun)) ! j = stepAnalyses example_done ! j)"
    by blast
  moreover have "(0::nat) < length (stepAnalyses example_done)"
    by (simp add: example_done_steps)
  ultimately have "length (stepAnalyses (fst (snd example_rerun))) = length (stepAnalyses example_done)"
    and "stepAnalyses (fst (snd example_rerun)) ! 0 = stepAnalyses example_done ! 0"
    by auto
  moreover have "stepAnalyses (fst (snd example_rerun)) ! 1 \<noteq> stepAnalyses example_done ! 1"
    by (simp add: example_rerun_steps example_done_steps)
  moreover from hyp have "1 < length (stepAnalyses example_done)"
    and "id_field (stepAnalyses example_done ! 1) = step_prefix @ [0x31, 0x37, 0x2D, 0x31]"
    and "id_field (stepAnalyses example_done ! 0) \<noteq> step_prefix @ [0x31, 0x37, 0x2D, 0x31]"
    by simp_all
  ultimately show ?thesis by (intro conjI)
qed

section \<open>What an update may change\<close>

text \<open>A written value that shows the executed step \<open>done\<close> is the last one, written after
  a call that returned.\<close>

lemma executeStep_done:
  assumes ex: "executeStep an act index cur (prev, w) = (tr, fin, c)"
    and s: "s \<in> set (steps_written tr)"
    and lt: "index < length prev"
    and dn: "status (s ! index) = Done"
  shows "\<exists>step sample cols res w'.
           at_index cur index = Some step
         \<and> flatMap_sheets (\<lambda>s. take 50 (rows s)) act = Inr sample
         \<and> flatMap_sheets columns act = Inr cols
         \<and> an w (title step) (description step) sample (new_Set cols) = (Fulfilled res, w')
         \<and> result (s ! index) = Some res \<and> s = fin \<and> c = Settled w'
         \<and> AnalyzeCall index (title step) (description step) sample (new_Set cols) \<in> set tr
         \<and> AnalyzeReturned index res \<in> set tr"
  using executeStep_shapes [OF ex]
proof (elim disjE exE conjE)
  assume "tr = [ExecStart index, ExecEnd index]"
  with s show ?thesis by simp
next
  fix step sample cols res w'
  assume a: "at_index cur index = Some step"
    "flatMap_sheets (\<lambda>s. take 50 (rows s)) act = Inr sample"
    "flatMap_sheets columns act = Inr cols"
    "an w (title step) (description step) sample (new_Set cols) = (Fulfilled res, w')"
    "c = Settled w'"
    and tr: "tr = [ExecStart index, StepsSet (mark index (\<lambda>s. s\<lparr>status := Analyzing\<rparr>) prev),
                AnalyzeCall index (title step) (description step) sample (new_Set cols),
                AnalyzeReturned index res, StepsSet fin, ExecEnd index]"
    and fin: "fin = mark index (\<lambda>s. s\<lparr>status := Done, result := Some res\<rparr>)
                   (mark index (\<lambda>s. s\<lparr>status := Analyzing\<rparr>) prev)"
  from s tr have "s = mark index (\<lambda>s. s\<lparr>status := Analyzing\<rparr>) prev \<or> s = fin"
    by simp
  with dn lt have sf: "s = fin" by auto
  with fin lt have "result (s ! index) = Some res" by simp
  moreover from tr have "AnalyzeCall index (title step) (description step) sample (new_Set cols) \<in> set tr"
    and "AnalyzeReturned index res \<in> set tr"
    by simp_all
  ultimately show ?thesis using a sf by blast
next
  fix step sample cols w'
  assume tr: "tr = [ExecStart index, StepsSet (mark index (\<lambda>s. s\<lparr>status := Analyzing\<rparr>) prev),
                AnalyzeCall index (title step) (description step) sample (new_Set cols),
                AnalyzeThrew index, StepsSet fin, ExecEnd index]"
    and fin: "fin = mark index (\<lambda>s. s\<lparr>status := Error\<rparr>)
                   (mark index (\<lambda>s. s\<lparr>status := Analyzing\<rparr>) prev)"
  from s tr have "s = mark index (\<lambda>s. s\<lparr>status := Analyzing\<rparr>) prev \<or> s = fin"
    by simp
  with dn lt fin show ?thesis by auto
next
  fix step sample cols w'
  assume tr: "tr = [ExecStart index, StepsSet fin,
                AnalyzeCall index (title step) (description step) sample (new_Set cols)]"
    and fin: "fin = mark index (\<lambda>s. s\<lparr>status := Analyzing\<rparr>) prev"
  from s tr have "s = fin" by simp
  with dn lt fin show ?thesis by auto
next
  assume tr: "tr = [ExecStart index, StepsSet (mark index (\<lambda>s. s\<lparr>status := Analyzing\<rparr>) prev),
                StepsSet fin, ExecEnd index]"
    and fin: "fin = mark index (\<lambda>s. s\<lparr>status := Error\<rparr>)
                   (mark index (\<lambda>s. s\<lparr>status := Analyzing\<rparr>) prev)"
  from s tr have "s = mark index (\<lambda>s. s\<lparr>status := Analyzing\<rparr>) prev \<or> s = fin"
    by simp
  with dn lt fin show ?thesis by auto
next
  assume tr: "tr = [ExecStart index, StepsSet (mark index (\<lambda>s. s\<lparr>status := Analyzing\<rparr>) prev),
                StepsSet fin, ExecEnd index]"
    and fin: "fin = mark index (\<lambda>s. s\<lparr>status := Error\<rparr>)
                   (mark index (\<lambda>s. s\<lparr>status := Analyzing\<rparr>) prev)"
  from s tr have "s = mark index (\<lambda>s. s\<lparr>status := Analyzing\<rparr>) prev \<or> s = fin"
    by simp
  with dn lt fin show ?thesis by auto
next
  assume tr: "tr = [ExecStart index, StepsSet (mark index (\<lambda>s. s\<lparr>status := Analyzing\<rparr>) prev),
                StepsSet fin, ExecEnd index]"
    and fin: "fin = mark index (\<lambda>s. s\<lparr>status := Error\<rparr>)
                   (mark index (\<lambda>s. s\<lparr>status := Analyzing\<rparr>) prev)"
  from s tr have "s = mark index (\<lambda>s. s\<lparr>status := Analyzing\<rparr>) prev \<or> s = fin"
    by simp
  with dn lt fin show ?thesis by auto
qed

lemma executeStep_done_final:
  assumes ex: "executeStep an act index cur (prev, w) = (tr, fin, c)"
    and lt: "index < length prev"
    and "status (prev ! index) \<noteq> Done" and "status (fin ! index) = Done"
  shows "fin \<in> set (steps_written tr)"
  using executeStep_shapes [OF ex] assms(2-)
  by (elim disjE exE conjE) simp_all

lemma executeStep_written:
  assumes "executeStep an act index cur (prev, w) = (tr, fin, c)"
    and "s \<in> set (steps_written tr) \<or> s = fin"
  shows "s = prev
       \<or> s = mark index (\<lambda>s. s\<lparr>status := Analyzing\<rparr>) prev
       \<or> s = mark index (\<lambda>s. s\<lparr>status := Error\<rparr>) (mark index (\<lambda>s. s\<lparr>status := Analyzing\<rparr>) prev)
       \<or> (\<exists>res. s = mark index (\<lambda>s. s\<lparr>status := Done, result := Some res\<rparr>)
                        (mark index (\<lambda>s. s\<lparr>status := Analyzing\<rparr>) prev))"
  using executeStep_shapes [OF assms(1)] assms(2)
  by (elim disjE exE conjE; simp; blast)

lemma executeStep_result:
  assumes "executeStep an act index cur (prev, w) = (tr, fin, c)"
    and "s \<in> set (steps_written tr) \<or> s = fin" and "j < length prev"
  shows "result (s ! j) = result (prev ! j) \<or> (j = index \<and> status (s ! j) = Done)"
  using executeStep_written [OF assms(1,2)] assms(3)
  by (elim disjE exE) simp_all

lemma executeStep_fin_written:
  assumes "executeStep an act index cur (prev, w) = (tr, fin, c)"
  shows "fin = prev \<or> fin \<in> set (steps_written tr)"
  using executeStep_shapes [OF assms]
  by (elim disjE exE conjE) simp_all

text \<open>
  The result of the executed step is the old one, unless the value shows the step
  \<open>done\<close>; then it is what the call returned.
\<close>

lemma executeStep_result_returned:
  assumes ex: "executeStep an act index cur (prev, w) = (tr, fin, c)"
    and s: "s \<in> set (steps_written tr) \<or> s = fin"
    and lt: "index < length prev"
  shows "result (s ! index) = result (prev ! index)
       \<or> (status (s ! index) = Done
          \<and> (\<exists>step sample cols res w'.
                 at_index cur index = Some step
               \<and> flatMap_sheets (\<lambda>s. take 50 (rows s)) act = Inr sample
               \<and> flatMap_sheets columns act = Inr cols
               \<and> an w (title step) (description step) sample (new_Set cols)
                    = (Fulfilled res, w')
               \<and> result (s ! index) = Some res))"
proof (cases "s = prev")
  case True
  then show ?thesis by simp
next
  case False
  with s executeStep_fin_written [OF ex] have wr: "s \<in> set (steps_written tr)"
    by auto
  show ?thesis
  proof (cases "status (s ! index) = Done")
    case True
    from executeStep_done [OF ex wr lt True] obtain step sample cols res w' where
      "at_index cur index = Some step"
      "flatMap_sheets (\<lambda>s. take 50 (rows s)) act = Inr sample"
      "flatMap_sheets columns act = Inr cols"
      "an w (title step) (description step) sample (new_Set cols) = (Fulfilled res, w')"
      "result (s ! index) = Some res"
      by (elim exE conjE)
    then have "\<exists>step sample cols res w'.
                 at_index cur index = Some step
               \<and> flatMap_sheets (\<lambda>s. take 50 (rows s)) act = Inr sample
               \<and> flatMap_sheets columns act = Inr cols
               \<and> an w (title step) (description step) sample (new_Set cols)
                    = (Fulfilled res, w')
               \<and> result (s ! index) = Some res"
      by (intro exI conjI)
    with True show ?thesis by (intro disjI2 conjI)
  next
    case notdone: False
    from executeStep_written [OF ex s] have "result (s ! index) = result (prev ! index)"
    proof (elim disjE exE)
      assume "s = prev"
      then show ?thesis by simp
    next
      assume "s = mark index (\<lambda>s. s\<lparr>status := Analyzing\<rparr>) prev"
      with lt show ?thesis by simp
    next
      assume "s = mark index (\<lambda>s. s\<lparr>status := Error\<rparr>)
                    (mark index (\<lambda>s. s\<lparr>status := Analyzing\<rparr>) prev)"
      with lt show ?thesis by simp
    next
      fix res
      assume "s = mark index (\<lambda>s. s\<lparr>status := Done, result := Some res\<rparr>)
                    (mark index (\<lambda>s. s\<lparr>status := Analyzing\<rparr>) prev)"
      with lt have "status (s ! index) = Done" by simp
      with notdone show ?thesis by simp
    qed
    then show ?thesis by (rule disjI1)
  qed
qed

lemma executeStep_status_written:
  assumes ex: "executeStep an act index cur (prev, w) = (tr, fin, c)"
    and s: "s \<in> set (steps_written tr) \<or> s = fin"
    and lt: "index < length prev"
  shows "status (s ! index) = status (prev ! index) \<or> status (s ! index) = Analyzing
       \<or> status (s ! index) = Done \<or> status (s ! index) = Error"
  using executeStep_written [OF ex s] lt
  by (elim disjE exE) simp_all

lemma executeStep_ids:
  assumes "executeStep an act index cur (prev, w) = (tr, fin, c)"
    and "s \<in> set (steps_written tr) \<or> s = fin"
  shows "map id_field s = map id_field prev"
  using executeStep_frame(1) [OF assms] executeStep_frame(3) [OF assms]
  by (simp add: list_eq_iff_nth_eq)

lemma run_steps_ids:
  assumes "run_steps an act init i (steps, w) = (tr, fin, c)"
  shows "s \<in> set (steps_written tr) \<or> s = fin \<Longrightarrow> map id_field s = map id_field steps"
  using assms
proof (induction rule: run_steps_induct)
  case (stop i steps w)
  then show ?case by simp
next
  case (suspend i steps w tr1 s1)
  from executeStep_ids [OF suspend(2) suspend.prems] show ?case .
next
  case (continue i steps w tr1 s1 w1 tr2 fin c)
  have s1: "map id_field s1 = map id_field steps"
    using executeStep_ids [OF continue(2), of s1] by simp
  from continue.prems consider "s \<in> set (steps_written tr1)"
    | "s \<in> set (steps_written tr2) \<or> s = fin" by auto
  then show ?case
  proof cases
    case 1
    with executeStep_ids [OF continue(2), of s] show ?thesis by simp
  next
    case 2
    with continue.IH s1 show ?thesis by simp
  qed
qed

lemma executeStep_fields:
  assumes ex: "executeStep an act index cur (prev, w) = (tr, fin, c)"
    and s: "s \<in> set (steps_written tr) \<or> s = fin"
  shows "length s = length prev
       \<and> (\<forall>j < length prev.
            id_field (s ! j) = id_field (prev ! j)
          \<and> title (s ! j) = title (prev ! j)
          \<and> description (s ! j) = description (prev ! j)
          \<and> (j \<noteq> index \<longrightarrow> s ! j = prev ! j)
          \<and> (result (s ! j) = result (prev ! j) \<or> j = index \<and> status (s ! j) = Done))"
proof (intro conjI allI impI)
  show "length s = length prev" by (rule executeStep_frame(1) [OF ex s])
next
  fix j assume "j < length prev"
  then show "id_field (s ! j) = id_field (prev ! j)" by (rule executeStep_frame(3) [OF ex s])
next
  fix j assume "j < length prev"
  then show "title (s ! j) = title (prev ! j)" by (rule executeStep_frame(4) [OF ex s])
next
  fix j assume "j < length prev"
  then show "description (s ! j) = description (prev ! j)"
    by (rule executeStep_frame(5) [OF ex s])
next
  fix j assume "j < length prev" "j \<noteq> index"
  then show "s ! j = prev ! j" by (rule executeStep_frame(2) [OF ex s])
next
  fix j assume "j < length prev"
  then show "result (s ! j) = result (prev ! j) \<or> j = index \<and> status (s ! j) = Done"
    by (rule executeStep_result [OF ex s])
qed

lemma handleReAnalyzeStep_fields:
  assumes run: "handleReAnalyzeStep an id' newTitle newDescription st w = (tr, st', c)"
    and s: "s \<in> set (steps_written tr) \<or> s = stepAnalyses st'"
    and j: "j < length (stepAnalyses st)"
  shows "length s = length (stepAnalyses st)"
    and "id_field (s ! j) = id_field (stepAnalyses st ! j)"
    and "findIndex (\<lambda>x. id_field x = id') (stepAnalyses st) \<noteq> Some j \<Longrightarrow>
                s ! j = stepAnalyses st ! j"
    and "findIndex (\<lambda>x. id_field x = id') (stepAnalyses st) = Some j \<Longrightarrow>
                title (s ! j) = newTitle \<and> description (s ! j) = newDescription
              \<and> (result (s ! j) = result (stepAnalyses st ! j) \<or> status (s ! j) = Done)"
proof -
  have "length s = length (stepAnalyses st)
      \<and> id_field (s ! j) = id_field (stepAnalyses st ! j)
      \<and> (findIndex (\<lambda>x. id_field x = id') (stepAnalyses st) \<noteq> Some j \<longrightarrow>
                s ! j = stepAnalyses st ! j)
      \<and> (findIndex (\<lambda>x. id_field x = id') (stepAnalyses st) = Some j \<longrightarrow>
                title (s ! j) = newTitle \<and> description (s ! j) = newDescription
              \<and> (result (s ! j) = result (stepAnalyses st ! j) \<or> status (s ! j) = Done))"
  proof (cases "findIndex (\<lambda>x. id_field x = id') (stepAnalyses st)")
    case None
    from handleReAnalyzeStep_not_found [OF None, of an newTitle newDescription w] run s
    show ?thesis by (simp add: None)
  next
    case (Some index)
    then have lt: "index < length (stepAnalyses st)"
      by (simp add: findIndex_Some)
    let ?upd = "(stepAnalyses st) [index := (stepAnalyses st ! index)
                     \<lparr>title := newTitle, description := newDescription, status := Analyzing\<rparr>]"
    from handleReAnalyzeStep_found [OF run Some] obtain tr0 where
      ex: "executeStep an (activeSheets st) index ?upd (?upd, w) = (tr0, stepAnalyses st', c)"
      and tr: "tr = StepsSet ?upd # tr0"
      by blast
    have j': "j < length ?upd" using j by simp
    from s consider "s = ?upd" | "s \<in> set (steps_written tr0) \<or> s = stepAnalyses st'"
      by (auto simp: tr)
    then show ?thesis
    proof cases
      case 1
      with lt j show ?thesis by (simp add: Some nth_list_update)
    next
      case 2
      have len: "length s = length (stepAnalyses st)"
        using executeStep_frame(1) [OF ex 2] by simp
      note a = executeStep_frame(3) [OF ex 2 j']
      note b = executeStep_frame(4) [OF ex 2 j']
      note d = executeStep_frame(5) [OF ex 2 j']
      note e = executeStep_frame(2) [OF ex 2 j']
      note r = executeStep_result [OF ex 2 j']
      show ?thesis
      proof (cases "j = index")
        case True
        with len a b d r lt show ?thesis by (auto simp: Some)
      next
        case False
        with len a e j show ?thesis by (simp add: Some)
      qed
    qed
  qed
  then show "length s = length (stepAnalyses st)"
    and "id_field (s ! j) = id_field (stepAnalyses st ! j)"
    and "findIndex (\<lambda>x. id_field x = id') (stepAnalyses st) \<noteq> Some j \<Longrightarrow>
                s ! j = stepAnalyses st ! j"
    and "findIndex (\<lambda>x. id_field x = id') (stepAnalyses st) = Some j \<Longrightarrow>
                title (s ! j) = newTitle \<and> description (s ! j) = newDescription
              \<and> (result (s ! j) = result (stepAnalyses st ! j) \<or> status (s ! j) = Done)"
    by simp_all
qed

text \<open>The step that \<open>handleReAnalyzeStep\<close> re-runs.\<close>

lemma handleReAnalyzeStep_matched:
  assumes run: "handleReAnalyzeStep an id' newTitle newDescription st w = (tr, st', c)"
    and fi: "findIndex (\<lambda>x. id_field x = id') (stepAnalyses st) = Some j"
  shows "\<exists>rest. steps_written tr =
           (stepAnalyses st) [j := (stepAnalyses st ! j)
              \<lparr>title := newTitle, description := newDescription, status := Analyzing\<rparr>] # rest"
    and "s \<in> set (steps_written tr) \<or> s = stepAnalyses st' \<Longrightarrow>
         status (s ! j) = Analyzing \<or> status (s ! j) = Done \<or> status (s ! j) = Error"
    and "s \<in> set (steps_written tr) \<or> s = stepAnalyses st' \<Longrightarrow>
         result (s ! j) = result (stepAnalyses st ! j)
       \<or> (status (s ! j) = Done
          \<and> (\<exists>sample cols res w'.
                 flatMap_sheets (\<lambda>s. take 50 (rows s)) (activeSheets st) = Inr sample
               \<and> flatMap_sheets columns (activeSheets st) = Inr cols
               \<and> an w newTitle newDescription sample (new_Set cols) = (Fulfilled res, w')
               \<and> result (s ! j) = Some res))"
proof -
  let ?upd = "(stepAnalyses st) [j := (stepAnalyses st ! j)
                 \<lparr>title := newTitle, description := newDescription, status := Analyzing\<rparr>]"
  from fi have lt: "j < length (stepAnalyses st)"
    by (simp add: findIndex_Some)
  then have lt': "j < length ?upd" by simp
  from handleReAnalyzeStep_found [OF run fi] obtain tr0 where
    ex: "executeStep an (activeSheets st) j ?upd (?upd, w) = (tr0, stepAnalyses st', c)"
    and tr: "tr = StepsSet ?upd # tr0"
    by blast
  have st_upd: "status (?upd ! j) = Analyzing" and res_upd: "result (?upd ! j) = result (stepAnalyses st ! j)"
    and ti_upd: "title (?upd ! j) = newTitle" and de_upd: "description (?upd ! j) = newDescription"
    using lt by simp_all
  from tr have "steps_written tr = ?upd # steps_written tr0" by simp
  then show "\<exists>rest. steps_written tr = ?upd # rest" by (rule exI)
  { assume s: "s \<in> set (steps_written tr) \<or> s = stepAnalyses st'"
    then consider "s = ?upd" | "s \<in> set (steps_written tr0) \<or> s = stepAnalyses st'"
      by (auto simp: tr)
    then show "status (s ! j) = Analyzing \<or> status (s ! j) = Done \<or> status (s ! j) = Error"
    proof cases
      case 1
      with st_upd show ?thesis by simp
    next
      case 2
      from executeStep_status_written [OF ex 2 lt'] st_upd show ?thesis by auto
    qed }
  { assume s: "s \<in> set (steps_written tr) \<or> s = stepAnalyses st'"
    then consider "s = ?upd" | "s \<in> set (steps_written tr0) \<or> s = stepAnalyses st'"
      by (auto simp: tr)
    then show "result (s ! j) = result (stepAnalyses st ! j)
       \<or> (status (s ! j) = Done
          \<and> (\<exists>sample cols res w'.
                 flatMap_sheets (\<lambda>s. take 50 (rows s)) (activeSheets st) = Inr sample
               \<and> flatMap_sheets columns (activeSheets st) = Inr cols
               \<and> an w newTitle newDescription sample (new_Set cols) = (Fulfilled res, w')
               \<and> result (s ! j) = Some res))"
    proof cases
      case 1
      with res_upd show ?thesis by simp
    next
      case 2
      from executeStep_result_returned [OF ex 2 lt']
      show ?thesis
      proof (elim disjE exE conjE)
        assume "result (s ! j) = result (?upd ! j)"
        with res_upd show ?thesis by simp
      next
        fix step sample cols res w'
        assume dn: "status (s ! j) = Done"
          and at: "at_index ?upd j = Some step"
          and a: "flatMap_sheets (\<lambda>s. take 50 (rows s)) (activeSheets st) = Inr sample"
          and b: "flatMap_sheets columns (activeSheets st) = Inr cols"
          and call: "an w (title step) (description step) sample (new_Set cols)
                       = (Fulfilled res, w')"
          and r: "result (s ! j) = Some res"
        from at lt' have "step = ?upd ! j"
          by (simp add: at_index_def)
        with ti_upd de_upd have "title step = newTitle" "description step = newDescription"
          by simp_all
        with call have "an w newTitle newDescription sample (new_Set cols) = (Fulfilled res, w')"
          by simp
        with a b r have "\<exists>sample cols res w'.
                 flatMap_sheets (\<lambda>s. take 50 (rows s)) (activeSheets st) = Inr sample
               \<and> flatMap_sheets columns (activeSheets st) = Inr cols
               \<and> an w newTitle newDescription sample (new_Set cols) = (Fulfilled res, w')
               \<and> result (s ! j) = Some res"
          by (intro exI conjI)
        with dn show ?thesis by (intro disjI2 conjI)
      qed
    qed }
qed

text \<open>
  Claim C5, as amended. The claim says that after creation only the status of a step
  changes. That fails twice: \<open>executeStep\<close> stores the returned result together with the
  status \<open>done\<close>, and \<open>handleReAnalyzeStep\<close> replaces the title and the description of the
  step it re-runs. What holds: every value written by \<open>executeStep\<close> has the old length,
  leaves id, title and description of every step, leaves every step other than the
  executed one altogether, and leaves the result of the executed step unless it shows
  that step \<open>done\<close>; then the result is the value that \<open>analyzeSingleStep\<close> returned for
  the title and description of \<open>currentSteps[index]\<close>, the combined sample and the combined
  columns. \<open>handleReAnalyzeStep\<close> for an id that the step at \<open>j\<close> is the first to have:
  the first value it writes is the old list with the step at \<open>j\<close> given the new title,
  the new description and the status \<open>analyzing\<close>; every value written has the old
  length, leaves the id of every step and all of every other step; the step at \<open>j\<close> has
  the new title and description, its status is \<open>analyzing\<close>, \<open>done\<close> or \<open>error\<close>, and
  its result is the old one unless it is shown \<open>done\<close>: then it is the value that
  \<open>analyzeSingleStep\<close> returned for the new title and description.
\<close>

theorem C5_fields_after_creation:
  "(executeStep an act index cur (prev, w) = (tr, fin, c) \<longrightarrow>
      (\<forall>s. s \<in> set (steps_written tr) \<or> s = fin \<longrightarrow>
         length s = length prev
       \<and> (\<forall>j < length prev.
            id_field (s ! j) = id_field (prev ! j)
          \<and> title (s ! j) = title (prev ! j)
          \<and> description (s ! j) = description (prev ! j)
          \<and> (j \<noteq> index \<longrightarrow> s ! j = prev ! j)
          \<and> (result (s ! j) = result (prev ! j)
             \<or> (j = index \<and> status (s ! j) = Done
                \<and> (\<exists>step sample cols res w'.
                       at_index cur index = Some step
                     \<and> flatMap_sheets (\<lambda>s. take 50 (rows s)) act = Inr sample
                     \<and> flatMap_sheets columns act = Inr cols
                     \<and> an w (title step) (description step) sample (new_Set cols)
                          = (Fulfilled res, w')
                     \<and> result (s ! j) = Some res))))))
 \<and> (handleReAnalyzeStep an' id' newTitle newDescription st w' = (tr', st', c') \<longrightarrow>
      (\<forall>s. s \<in> set (steps_written tr') \<or> s = stepAnalyses st' \<longrightarrow>
         length s = length (stepAnalyses st)
       \<and> (\<forall>j < length (stepAnalyses st).
            id_field (s ! j) = id_field (stepAnalyses st ! j)
          \<and> (findIndex (\<lambda>x. id_field x = id') (stepAnalyses st) \<noteq> Some j \<longrightarrow>
                s ! j = stepAnalyses st ! j)
          \<and> (findIndex (\<lambda>x. id_field x = id') (stepAnalyses st) = Some j \<longrightarrow>
                title (s ! j) = newTitle \<and> description (s ! j) = newDescription
              \<and> (status (s ! j) = Analyzing \<or> status (s ! j) = Done
                   \<or> status (s ! j) = Error)
              \<and> (result (s ! j) = result (stepAnalyses st ! j)
                 \<or> (status (s ! j) = Done
                    \<and> (\<exists>sample cols res w''.
                           flatMap_sheets (\<lambda>s. take 50 (rows s)) (activeSheets st)
                             = Inr sample
                         \<and> flatMap_sheets columns (activeSheets st) = Inr cols
                         \<and> an' w' newTitle newDescription sample (new_Set cols)
                              = (Fulfilled res, w'')
                         \<and> result (s ! j) = Some res))))))
    \<and> (\<forall>j. findIndex (\<lambda>x. id_field x = id') (stepAnalyses st) = Some j \<longrightarrow>
          (\<exists>rest. steps_written tr' =
             (stepAnalyses st) [j := (stepAnalyses st ! j)
                \<lparr>title := newTitle, description := newDescription, status := Analyzing\<rparr>]
             # rest)))"
proof (rule conjI)
  show "executeStep an act index cur (prev, w) = (tr, fin, c) \<longrightarrow>
      (\<forall>s. s \<in> set (steps_written tr) \<or> s = fin \<longrightarrow>
         length s = length prev
       \<and> (\<forall>j < length prev.
            id_field (s ! j) = id_field (prev ! j)
          \<and> title (s ! j) = title (prev ! j)
          \<and> description (s ! j) = description (prev ! j)
          \<and> (j \<noteq> index \<longrightarrow> s ! j = prev ! j)
          \<and> (result (s ! j) = result (prev ! j)
             \<or> (j = index \<and> status (s ! j) = Done
                \<and> (\<exists>step sample cols res w'.
                       at_index cur index = Some step
                     \<and> flatMap_sheets (\<lambda>s. take 50 (rows s)) act = Inr sample
                     \<and> flatMap_sheets columns act = Inr cols
                     \<and> an w (title step) (description step) sample (new_Set cols)
                          = (Fulfilled res, w')
                     \<and> result (s ! j) = Some res)))))"
  proof (rule impI, rule allI, rule impI, rule conjI)
    fix s assume ex: "executeStep an act index cur (prev, w) = (tr, fin, c)"
      and s: "s \<in> set (steps_written tr) \<or> s = fin"
    show "length s = length prev" by (rule executeStep_frame(1) [OF ex s])
    show "\<forall>j < length prev.
            id_field (s ! j) = id_field (prev ! j)
          \<and> title (s ! j) = title (prev ! j)
          \<and> description (s ! j) = description (prev ! j)
          \<and> (j \<noteq> index \<longrightarrow> s ! j = prev ! j)
          \<and> (result (s ! j) = result (prev ! j)
             \<or> (j = index \<and> status (s ! j) = Done
                \<and> (\<exists>step sample cols res w'.
                       at_index cur index = Some step
                     \<and> flatMap_sheets (\<lambda>s. take 50 (rows s)) act = Inr sample
                     \<and> flatMap_sheets columns act = Inr cols
                     \<and> an w (title step) (description step) sample (new_Set cols)
                          = (Fulfilled res, w')
                     \<and> result (s ! j) = Some res)))"
    proof (rule allI, rule impI)
      fix j assume j: "j < length prev"
      have r: "result (s ! j) = result (prev ! j)
             \<or> (j = index \<and> status (s ! j) = Done
                \<and> (\<exists>step sample cols res w'.
                       at_index cur index = Some step
                     \<and> flatMap_sheets (\<lambda>s. take 50 (rows s)) act = Inr sample
                     \<and> flatMap_sheets columns act = Inr cols
                     \<and> an w (title step) (description step) sample (new_Set cols)
                          = (Fulfilled res, w')
                     \<and> result (s ! j) = Some res))"
      proof (cases "j = index")
        case True
        from executeStep_result_returned [OF ex s j [unfolded True]] show ?thesis
          unfolding True by (elim disjE conjE) (rule disjI1, assumption, rule disjI2, intro conjI refl)
      next
        case False
        from executeStep_frame(2) [OF ex s j False] show ?thesis by simp
      qed
      have e: "j \<noteq> index \<longrightarrow> s ! j = prev ! j"
        using executeStep_frame(2) [OF ex s j] by (rule impI)
      from executeStep_frame(3) [OF ex s j] executeStep_frame(4) [OF ex s j]
        executeStep_frame(5) [OF ex s j] e r
      show "id_field (s ! j) = id_field (prev ! j)
          \<and> title (s ! j) = title (prev ! j)
          \<and> description (s ! j) = description (prev ! j)
          \<and> (j \<noteq> index \<longrightarrow> s ! j = prev ! j)
          \<and> (result (s ! j) = result (prev ! j)
             \<or> (j = index \<and> status (s ! j) = Done
                \<and> (\<exists>step sample cols res w'.
                       at_index cur index = Some step
                     \<and> flatMap_sheets (\<lambda>s. take 50 (rows s)) act = Inr sample
                     \<and> flatMap_sheets columns act = Inr cols
                     \<and> an w (title step) (description step) sample (new_Set cols)
                          = (Fulfilled res, w')
                     \<and> result (s ! j) = Some res)))"
        by (intro conjI)
    qed
  qed
next
  show "handleReAnalyzeStep an' id' newTitle newDescription st w' = (tr', st', c') \<longrightarrow>
      (\<forall>s. s \<in> set (steps_written tr') \<or> s = stepAnalyses st' \<longrightarrow>
         length s = length (stepAnalyses st)
       \<and> (\<forall>j < length (stepAnalyses st).
            id_field (s ! j) = id_field (stepAnalyses st ! j)
          \<and> (findIndex (\<lambda>x. id_field x = id') (stepAnalyses st) \<noteq> Some j \<longrightarrow>
                s ! j = stepAnalyses st ! j)
          \<and> (findIndex (\<lambda>x. id_field x = id') (stepAnalyses st) = Some j \<longrightarrow>
                title (s ! j) = newTitle \<and> description (s ! j) = newDescription
              \<and> (status (s ! j) = Analyzing \<or> status (s ! j) = Done
                   \<or> status (s ! j) = Error)
              \<and> (result (s ! j) = result (stepAnalyses st ! j)
                 \<or> (status (s ! j) = Done
                    \<and> (\<exists>sample cols res w''.
                           flatMap_sheets (\<lambda>s. take 50 (rows s)) (activeSheets st)
                             = Inr sample
                         \<and> flatMap_sheets columns (activeSheets st) = Inr cols
                         \<and> an' w' newTitle newDescription sample (new_Set cols)
                              = (Fulfilled res, w'')
                         \<and> result (s ! j) = Some res))))))
    \<and> (\<forall>j. findIndex (\<lambda>x. id_field x = id') (stepAnalyses st) = Some j \<longrightarrow>
          (\<exists>rest. steps_written tr' =
             (stepAnalyses st) [j := (stepAnalyses st ! j)
                \<lparr>title := newTitle, description := newDescription, status := Analyzing\<rparr>]
             # rest))"
  proof (rule impI, rule conjI)
    assume run: "handleReAnalyzeStep an' id' newTitle newDescription st w' = (tr', st', c')"
    show "\<forall>j. findIndex (\<lambda>x. id_field x = id') (stepAnalyses st) = Some j \<longrightarrow>
          (\<exists>rest. steps_written tr' =
             (stepAnalyses st) [j := (stepAnalyses st ! j)
                \<lparr>title := newTitle, description := newDescription, status := Analyzing\<rparr>]
             # rest)"
    proof (rule allI, rule impI)
      fix j assume "findIndex (\<lambda>x. id_field x = id') (stepAnalyses st) = Some j"
      then show "\<exists>rest. steps_written tr' =
             (stepAnalyses st) [j := (stepAnalyses st ! j)
                \<lparr>title := newTitle, description := newDescription, status := Analyzing\<rparr>]
             # rest"
        by (rule handleReAnalyzeStep_matched(1) [OF run])
    qed
    show "\<forall>s. s \<in> set (steps_written tr') \<or> s = stepAnalyses st' \<longrightarrow>
         length s = length (stepAnalyses st)
       \<and> (\<forall>j < length (stepAnalyses st).
            id_field (s ! j) = id_field (stepAnalyses st ! j)
          \<and> (findIndex (\<lambda>x. id_field x = id') (stepAnalyses st) \<noteq> Some j \<longrightarrow>
                s ! j = stepAnalyses st ! j)
          \<and> (findIndex (\<lambda>x. id_field x = id') (stepAnalyses st) = Some j \<longrightarrow>
                title (s ! j) = newTitle \<and> description (s ! j) = newDescription
              \<and> (status (s ! j) = Analyzing \<or> status (s ! j) = Done
                   \<or> status (s ! j) = Error)
              \<and> (result (s ! j) = result (stepAnalyses st ! j)
                 \<or> (status (s ! j) = Done
                    \<and> (\<exists>sample cols res w''.
                           flatMap_sheets (\<lambda>s. take 50 (rows s)) (activeSheets st)
                             = Inr sample
                         \<and> flatMap_sheets columns (activeSheets st) = Inr cols
                         \<and> an' w' newTitle newDescription sample (new_Set cols)
                              = (Fulfilled res, w'')
                         \<and> result (s ! j) = Some res)))))"
    proof (rule allI, rule impI, rule conjI)
      fix s assume s: "s \<in> set (steps_written tr') \<or> s = stepAnalyses st'"
      show "length s = length (stepAnalyses st)"
      proof (cases "stepAnalyses st")
        case Nil
        then have "findIndex (\<lambda>x. id_field x = id') (stepAnalyses st) = None"
          by (simp add: findIndex_None)
        from handleReAnalyzeStep_not_found [OF this, of an' newTitle newDescription w'] run s
        show ?thesis by simp
      next
        case (Cons a list)
        then have "0 < length (stepAnalyses st)" by simp
        from handleReAnalyzeStep_fields(1) [OF run s this] show ?thesis .
      qed
      show "\<forall>j < length (stepAnalyses st).
            id_field (s ! j) = id_field (stepAnalyses st ! j)
          \<and> (findIndex (\<lambda>x. id_field x = id') (stepAnalyses st) \<noteq> Some j \<longrightarrow>
                s ! j = stepAnalyses st ! j)
          \<and> (findIndex (\<lambda>x. id_field x = id') (stepAnalyses st) = Some j \<longrightarrow>
                title (s ! j) = newTitle \<and> description (s ! j) = newDescription
              \<and> (status (s ! j) = Analyzing \<or> status (s ! j) = Done
                   \<or> status (s ! j) = Error)
              \<and> (result (s ! j) = result (stepAnalyses st ! j)
                 \<or> (status (s ! j) = Done
                    \<and> (\<exists>sample cols res w''.
                           flatMap_sheets (\<lambda>s. take 50 (rows s)) (activeSheets st)
                             = Inr sample
                         \<and> flatMap_sheets columns (activeSheets st) = Inr cols
                         \<and> an' w' newTitle newDescription sample (new_Set cols)
                              = (Fulfilled res, w'')
                         \<and> result (s ! j) = Some res))))"
      proof (rule allI, rule impI, rule conjI, rule_tac [2] conjI)
        fix j assume j: "j < length (stepAnalyses st)"
        show "id_field (s ! j) = id_field (stepAnalyses st ! j)"
          by (rule handleReAnalyzeStep_fields(2) [OF run s j])
        show "findIndex (\<lambda>x. id_field x = id') (stepAnalyses st) \<noteq> Some j \<longrightarrow>
                s ! j = stepAnalyses st ! j"
          using handleReAnalyzeStep_fields(3) [OF run s j] by (rule impI)
        show "findIndex (\<lambda>x. id_field x = id') (stepAnalyses st) = Some j \<longrightarrow>
                title (s ! j) = newTitle \<and> description (s ! j) = newDescription
              \<and> (status (s ! j) = Analyzing \<or> status (s ! j) = Done
                   \<or> status (s ! j) = Error)
              \<and> (result (s ! j) = result (stepAnalyses st ! j)
                 \<or> (status (s ! j) = Done
                    \<and> (\<exists>sample cols res w''.
                           flatMap_sheets (\<lambda>s. take 50 (rows s)) (activeSheets st)
                             = Inr sample
                         \<and> flatMap_sheets columns (activeSheets st) = Inr cols
                         \<and> an' w' newTitle newDescription sample (new_Set cols)
                              = (Fulfilled res, w'')
                         \<and> result (s ! j) = Some res)))"
        proof (rule impI)
          assume fi: "findIndex (\<lambda>x. id_field x = id') (stepAnalyses st) = Some j"
          from handleReAnalyzeStep_fields(4) [OF run s j fi]
          have t: "title (s ! j) = newTitle" and d: "description (s ! j) = newDescription"
            by (rule conjunct1, elim conjE)
          note st = handleReAnalyzeStep_matched(2) [OF run fi s]
          note rs = handleReAnalyzeStep_matched(3) [OF run fi s]
          from t d st rs show "title (s ! j) = newTitle \<and> description (s ! j) = newDescription
              \<and> (status (s ! j) = Analyzing \<or> status (s ! j) = Done
                   \<or> status (s ! j) = Error)
              \<and> (result (s ! j) = result (stepAnalyses st ! j)
                 \<or> (status (s ! j) = Done
                    \<and> (\<exists>sample cols res w''.
                           flatMap_sheets (\<lambda>s. take 50 (rows s)) (activeSheets st)
                             = Inr sample
                         \<and> flatMap_sheets columns (activeSheets st) = Inr cols
                         \<and> an' w' newTitle newDescription sample (new_Set cols)
                              = (Fulfilled res, w'')
                         \<and> result (s ! j) = Some res)))"
            by (intro conjI)
        qed
      qed
    qed
  qed
qed

text \<open>
  The counterexample to claim C5 as stated: re-analysing the second step of the small
  run changes its title, description and result.
\<close>

theorem C5_counterexample:
  "stepAnalyses example_done ! 1 =
     \<lparr>id_field = step_prefix @ [0x31, 0x37, 0x2D, 0x31],
      title = [0x5206, 0x6790, 0x6B65, 0x9AA4, 0x20, 0x32],
      description = [0x20, 0x3A, 0x20], status = Error, result = None\<rparr>
   \<and> stepAnalyses (fst (snd (handleReAnalyzeStep example_analyzer
          (step_prefix @ [0x31, 0x37, 0x2D, 0x31]) [0x74] [0x64] example_done 0))) ! 1 =
     \<lparr>id_field = step_prefix @ [0x31, 0x37, 0x2D, 0x31], title = [0x74],
      description = [0x64], status = Done, result = Some example_result\<rparr>
   \<and> title (stepAnalyses (fst (snd example_rerun)) ! 1) \<noteq> title (stepAnalyses example_done ! 1)
   \<and> description (stepAnalyses (fst (snd example_rerun)) ! 1)
       \<noteq> description (stepAnalyses example_done ! 1)
   \<and> result (stepAnalyses (fst (snd example_rerun)) ! 1)
       \<noteq> result (stepAnalyses example_done ! 1)"
  using example_rerun_steps
  by (simp add: example_done_steps example_rerun_def)

lemma example_exec_steps:
  "fst (snd example_exec) =
     [\<lparr>id_field = step_prefix @ [0x31, 0x37, 0x2D, 0x30], title = [0x61],
        description = [0x62, 0x3A, 0x63], status = Done, result = Some example_result\<rparr>,
      \<lparr>id_field = step_prefix @ [0x31, 0x37, 0x2D, 0x31],
        title = [0x5206, 0x6790, 0x6B65, 0x9AA4, 0x20, 0x32],
        description = [0x20, 0x3A, 0x20], status = Done, result = Some example_result\<rparr>]"
  by (simp add: example_exec_def rerun_defs)

theorem C5_fields_after_creation_witness:
  "(1::nat) < length (stepAnalyses example_done)
   \<and> findIndex (\<lambda>x. id_field x = step_prefix @ [0x31, 0x37, 0x2D, 0x31])
        (stepAnalyses example_done) = Some 1
   \<and> length (fst (snd example_exec)) = length (stepAnalyses example_done)
   \<and> title (fst (snd example_exec) ! 1) = title (stepAnalyses example_done ! 1)
   \<and> fst (snd example_exec) ! 0 = stepAnalyses example_done ! 0
   \<and> result (fst (snd example_exec) ! 1) \<noteq> result (stepAnalyses example_done ! 1)
   \<and> status (fst (snd example_exec) ! 1) = Done
   \<and> (\<exists>step sample cols res w'.
          at_index (stepAnalyses example_done) 1 = Some step
        \<and> flatMap_sheets (\<lambda>s. take 50 (rows s)) (activeSheets example_done) = Inr sample
        \<and> flatMap_sheets columns (activeSheets example_done) = Inr cols
        \<and> example_analyzer 0 (title step) (description step) sample (new_Set cols)
             = (Fulfilled res, w')
        \<and> result (fst (snd example_exec) ! 1) = Some res)
   \<and> status (hd (steps_written (fst example_rerun)) ! 1) = Analyzing
   \<and> title (hd (steps_written (fst example_rerun)) ! 1) = [0x74]
   \<and> description (hd (steps_written (fst example_rerun)) ! 1) = [0x64]
   \<and> title (stepAnalyses (fst (snd example_rerun)) ! 1) = [0x74]
   \<and> description (stepAnalyses (fst (snd example_rerun)) ! 1) = [0x64]
   \<and> stepAnalyses (fst (snd example_rerun)) ! 0 = stepAnalyses example_done ! 0
   \<and> result (stepAnalyses (fst (snd example_rerun)) ! 1)
        \<noteq> result (stepAnalyses example_done ! 1)
   \<and> status (stepAnalyses (fst (snd example_rerun)) ! 1) = Done
   \<and> (\<exists>sample cols res w'.
          flatMap_sheets (\<lambda>s. take 50 (rows s)) (activeSheets example_done) = Inr sample
        \<and> flatMap_sheets columns (activeSheets example_done) = Inr cols
        \<and> example_analyzer 0 [0x74] [0x64] sample (new_Set cols) = (Fulfilled res, w')
        \<and> result (stepAnalyses (fst (snd example_rerun)) ! 1) = Some res)"
proof -
  have ex: "executeStep example_analyzer (activeSheets example_done) 1
     (stepAnalyses example_done) (stepAnalyses example_done, 0)
       = (fst example_exec, fst (snd example_exec), snd (snd example_exec))"
    by (simp add: example_exec_def)
  have run: "handleReAnalyzeStep example_analyzer
     (step_prefix @ [0x31, 0x37, 0x2D, 0x31]) [0x74] [0x64] example_done 0
       = (fst example_rerun, fst (snd example_rerun), snd (snd example_rerun))"
    by (simp add: example_rerun_def)
  have len: "(1::nat) < length (stepAnalyses example_done)"
    and len0: "(0::nat) < length (stepAnalyses example_done)"
    by (simp_all add: example_done_steps)
  have fi: "findIndex (\<lambda>x. id_field x = step_prefix @ [0x31, 0x37, 0x2D, 0x31])
        (stepAnalyses example_done) = Some 1"
    by (simp add: example_done_steps findIndex_def step_prefix_def)
  have nfi: "findIndex (\<lambda>x. id_field x = step_prefix @ [0x31, 0x37, 0x2D, 0x31])
        (stepAnalyses example_done) \<noteq> Some 0"
    by (simp add: fi)
  note inst = C5_fields_after_creation [of example_analyzer "activeSheets example_done" 1
      "stepAnalyses example_done" "stepAnalyses example_done" 0
      "fst example_exec" "fst (snd example_exec)" "snd (snd example_exec)"
      example_analyzer "step_prefix @ [0x31, 0x37, 0x2D, 0x31]" "[0x74]" "[0x64]" example_done 0
      "fst example_rerun" "fst (snd example_rerun)" "snd (snd example_rerun)"]
  note A = inst [THEN conjunct1, THEN mp, OF ex,
      THEN spec [where x = "fst (snd example_exec)"], THEN mp, OF disjI2 [OF refl]]
  note A1 = A [THEN conjunct2, THEN spec [where x = 1], THEN mp, OF len]
  note A0 = A [THEN conjunct2, THEN spec [where x = 0], THEN mp, OF len0]
  note B = inst [THEN conjunct2, THEN mp, OF run]
  note Bs = B [THEN conjunct1,
      THEN spec [where x = "stepAnalyses (fst (snd example_rerun))"], THEN mp,
      OF disjI2 [OF refl]]
  note B1 = Bs [THEN conjunct2, THEN spec [where x = 1], THEN mp, OF len,
      THEN conjunct2, THEN conjunct2, THEN mp, OF fi]
  note B0 = Bs [THEN conjunct2, THEN spec [where x = 0], THEN mp, OF len0,
      THEN conjunct2, THEN conjunct1, THEN mp, OF nfi]
  note Bf = B [THEN conjunct2, THEN spec [where x = 1], THEN mp, OF fi]
  have ne: "result (fst (snd example_exec) ! 1) \<noteq> result (stepAnalyses example_done ! 1)"
    by (simp add: example_exec_steps example_done_steps)
  have ne': "result (stepAnalyses (fst (snd example_rerun)) ! 1)
        \<noteq> result (stepAnalyses example_done ! 1)"
    by (simp add: example_rerun_steps example_done_steps)
  have a1: "length (fst (snd example_exec)) = length (stepAnalyses example_done)"
    by (rule A [THEN conjunct1])
  have a2: "title (fst (snd example_exec) ! 1) = title (stepAnalyses example_done ! 1)"
    by (rule A1 [THEN conjunct2, THEN conjunct1])
  have a3: "fst (snd example_exec) ! 0 = stepAnalyses example_done ! 0"
    using A0 [THEN conjunct2, THEN conjunct2, THEN conjunct2, THEN conjunct1] by simp
  from A1 [THEN conjunct2, THEN conjunct2, THEN conjunct2, THEN conjunct2] ne
  have a45: "status (fst (snd example_exec) ! 1) = Done
    \<and> (\<exists>step sample cols res w'.
          at_index (stepAnalyses example_done) 1 = Some step
        \<and> flatMap_sheets (\<lambda>s. take 50 (rows s)) (activeSheets example_done) = Inr sample
        \<and> flatMap_sheets columns (activeSheets example_done) = Inr cols
        \<and> example_analyzer 0 (title step) (description step) sample (new_Set cols)
             = (Fulfilled res, w')
        \<and> result (fst (snd example_exec) ! 1) = Some res)"
    by (elim disjE conjE) (erule notE, assumption, rule conjI)
  from Bf len have b1: "status (hd (steps_written (fst example_rerun)) ! 1) = Analyzing"
    and b2: "title (hd (steps_written (fst example_rerun)) ! 1) = [0x74]"
    and b3: "description (hd (steps_written (fst example_rerun)) ! 1) = [0x64]"
    by auto
  have b4: "title (stepAnalyses (fst (snd example_rerun)) ! 1) = [0x74]"
    by (rule B1 [THEN conjunct1])
  have b5: "description (stepAnalyses (fst (snd example_rerun)) ! 1) = [0x64]"
    by (rule B1 [THEN conjunct2, THEN conjunct1])
  note b6 = B0
  from B1 [THEN conjunct2, THEN conjunct2, THEN conjunct2] ne'
  have b78: "status (stepAnalyses (fst (snd example_rerun)) ! 1) = Done
   \<and> (\<exists>sample cols res w'.
          flatMap_sheets (\<lambda>s. take 50 (rows s)) (activeSheets example_done) = Inr sample
        \<and> flatMap_sheets columns (activeSheets example_done) = Inr cols
        \<and> example_analyzer 0 [0x74] [0x64] sample (new_Set cols) = (Fulfilled res, w')
        \<and> result (stepAnalyses (fst (snd example_rerun)) ! 1) = Some res)"
    by (elim disjE conjE) (erule notE, assumption, rule conjI)
  from len fi a1 a2 a3 ne a45 [THEN conjunct1] a45 [THEN conjunct2] b1 b2 b3 b4 b5 b6 ne'
    b78 [THEN conjunct1] b78 [THEN conjunct2]
  show ?thesis by (intro conjI)
qed

section \<open>Steps are never removed one by one\<close>

lemma runAnalysis_skip:
  "runAnalysis an now None st w = ([], st, Settled w)"
  "runAnalysis an now (Some []) st w = ([], st, Settled w)"
  by (simp_all add: runAnalysis_def)

lemma handleReAnalyzeStep_ids:
  assumes run: "handleReAnalyzeStep an id' nt nd st w = (tr, st', c)"
    and s: "s \<in> set (steps_written tr) \<or> s = stepAnalyses st'"
  shows "map id_field s = map id_field (stepAnalyses st)"
proof (cases "stepAnalyses st")
  case Nil
  then have "findIndex (\<lambda>x. id_field x = id') (stepAnalyses st) = None"
    by (simp add: findIndex_None)
  from handleReAnalyzeStep_not_found [OF this, of an nt nd w] run s
  show ?thesis by auto
next
  case (Cons a list)
  then have "0 < length (stepAnalyses st)" by simp
  from handleReAnalyzeStep_fields(1) [OF run s this] handleReAnalyzeStep_fields(2) [OF run s]
  show ?thesis by (simp add: list_eq_iff_nth_eq)
qed

lemma runAnalysis_ids:
  assumes run: "runAnalysis an now (Some cs) st w = (tr, st', c)" and ne: "cs \<noteq> []"
  shows "\<exists>rest. steps_written tr = map_idx (parse_step now) cs # rest
          \<and> (\<forall>s. s \<in> set rest \<or> s = stepAnalyses st' \<longrightarrow>
                map id_field s = map id_field (map_idx (parse_step now) cs))"
proof -
  let ?init = "map_idx (parse_step now) cs"
  from runAnalysis_run [OF run ne] obtain tr' where
    rs: "run_steps an (activeSheets st) ?init 0 (?init, w) = (tr', stepAnalyses st', c)"
    and tr: "tr = StepsSet ?init # tr'"
    by blast
  have "steps_written tr = ?init # steps_written tr'" by (simp add: tr)
  moreover have "\<forall>s. s \<in> set (steps_written tr') \<or> s = stepAnalyses st' \<longrightarrow>
                map id_field s = map id_field ?init"
    using run_steps_ids [OF rs] by blast
  ultimately show ?thesis by blast
qed

text \<open>
  Claim C6. No operation removes a single step. Every value that \<open>executeStep\<close> or
  \<open>handleReAnalyzeStep\<close> writes has the ids of the list before, position by position
  (and so its length). \<open>runAnalysis\<close> on a non-empty list first writes the list it
  builds from its argument, and every later value has the ids of that list; on no list
  or the empty list it writes nothing. \<open>handleDataLoaded\<close> and \<open>reset\<close> install the empty
  list; the selection handlers leave the list.
\<close>

theorem C6_no_individual_deletion:
  "(executeStep an act index cur (prev, w) = (tr, fin, c) \<longrightarrow>
      (\<forall>s. s \<in> set (steps_written tr) \<or> s = fin \<longrightarrow> map id_field s = map id_field prev))
 \<and> (handleReAnalyzeStep an id' newTitle newDescription st w = (tr1, st1, c1) \<longrightarrow>
      (\<forall>s. s \<in> set (steps_written tr1) \<or> s = stepAnalyses st1 \<longrightarrow>
           map id_field s = map id_field (stepAnalyses st)))
 \<and> (runAnalysis an now (Some cs) st w = (tr2, st2, c2) \<and> cs \<noteq> [] \<longrightarrow>
      (\<exists>rest. steps_written tr2 = map_idx (parse_step now) cs # rest
          \<and> (\<forall>s. s \<in> set rest \<or> s = stepAnalyses st2 \<longrightarrow>
                map id_field s = map id_field (map_idx (parse_step now) cs))))
 \<and> runAnalysis an now None st w = ([], st, Settled w)
 \<and> runAnalysis an now (Some []) st w = ([], st, Settled w)
 \<and> stepAnalyses (handleDataLoaded dataArray st) = []
 \<and> stepAnalyses (reset st) = []
 \<and> stepAnalyses (handleToggleSheet fileIdx sheetIdx st) = stepAnalyses st
 \<and> (handleToggleFile fileIdx st = Inr st3 \<longrightarrow> stepAnalyses st3 = stepAnalyses st)"
proof (intro conjI)
  show "executeStep an act index cur (prev, w) = (tr, fin, c) \<longrightarrow>
      (\<forall>s. s \<in> set (steps_written tr) \<or> s = fin \<longrightarrow> map id_field s = map id_field prev)"
  proof (intro impI allI)
    fix s assume a: "executeStep an act index cur (prev, w) = (tr, fin, c)"
      and b: "s \<in> set (steps_written tr) \<or> s = fin"
    show "map id_field s = map id_field prev" by (rule executeStep_ids [OF a b])
  qed
  show "handleReAnalyzeStep an id' newTitle newDescription st w = (tr1, st1, c1) \<longrightarrow>
      (\<forall>s. s \<in> set (steps_written tr1) \<or> s = stepAnalyses st1 \<longrightarrow>
           map id_field s = map id_field (stepAnalyses st))"
  proof (intro impI allI)
    fix s assume a: "handleReAnalyzeStep an id' newTitle newDescription st w = (tr1, st1, c1)"
      and b: "s \<in> set (steps_written tr1) \<or> s = stepAnalyses st1"
    show "map id_field s = map id_field (stepAnalyses st)"
      by (rule handleReAnalyzeStep_ids [OF a b])
  qed
  show "runAnalysis an now (Some cs) st w = (tr2, st2, c2) \<and> cs \<noteq> [] \<longrightarrow>
      (\<exists>rest. steps_written tr2 = map_idx (parse_step now) cs # rest
          \<and> (\<forall>s. s \<in> set rest \<or> s = stepAnalyses st2 \<longrightarrow>
                map id_field s = map id_field (map_idx (parse_step now) cs)))"
  proof (rule impI)
    assume "runAnalysis an now (Some cs) st w = (tr2, st2, c2) \<and> cs \<noteq> []"
    then have a: "runAnalysis an now (Some cs) st w = (tr2, st2, c2)" and b: "cs \<noteq> []"
      by (rule conjunct1, rule conjunct2)
    show "\<exists>rest. steps_written tr2 = map_idx (parse_step now) cs # rest
          \<and> (\<forall>s. s \<in> set rest \<or> s = stepAnalyses st2 \<longrightarrow>
                map id_field s = map id_field (map_idx (parse_step now) cs))"
      by (rule runAnalysis_ids [OF a b])
  qed
  show "runAnalysis an now None st w = ([], st, Settled w)"
    by (rule runAnalysis_skip(1))
  show "runAnalysis an now (Some []) st w = ([], st, Settled w)"
    by (rule runAnalysis_skip(2))
  show "stepAnalyses (handleDataLoaded dataArray st) = []"
    by (simp add: handleDataLoaded_def Let_def)
  show "stepAnalyses (reset st) = []"
    by (simp add: reset_def)
  show "stepAnalyses (handleToggleSheet fileIdx sheetIdx st) = stepAnalyses st"
    by (simp add: handleToggleSheet_def Let_def)
  show "handleToggleFile fileIdx st = Inr st3 \<longrightarrow> stepAnalyses st3 = stepAnalyses st"
  proof (rule impI)
    assume h: "handleToggleFile fileIdx st = Inr st3"
    show "stepAnalyses st3 = stepAnalyses st"
    proof (cases "fileDatas st")
      case None
      with h show ?thesis by (simp add: handleToggleFile_def)
    next
      case (Some fds)
      show ?thesis
      proof (cases "at_index fds fileIdx")
        case None
        with h Some show ?thesis by (simp add: handleToggleFile_def)
      next
        case (Some file')
        with h \<open>fileDatas st = Some fds\<close> show ?thesis
          by (auto simp: handleToggleFile_def Let_def)
      qed
    qed
  qed
qed

lemma example_toggle:
  "handleToggleFile 0 example_App = Inr (example_App\<lparr>selectedSheetsMap := []\<rparr>)"
  by (simp add: handleToggleFile_def example_App_def handleDataLoaded_def initial_App_def
      at_index_def new_Set_def Set_add_def Set_size_def Map_delete_def Let_def)

lemma example_run_written:
  "map (map status) (steps_written (fst example_run)) =
     [[Pending, Pending], [Analyzing, Pending], [Done, Pending], [Done, Analyzing],
      [Done, Error]]"
  by (simp add: example_defs)

theorem C6_no_individual_deletion_witness:
  "example_steps \<noteq> []
   \<and> handleToggleFile 0 example_App = Inr (example_App\<lparr>selectedSheetsMap := []\<rparr>)
   \<and> map id_field (fst (snd example_exec)) = map id_field (stepAnalyses example_done)
   \<and> map id_field (stepAnalyses (fst (snd example_rerun)))
        = map id_field (stepAnalyses example_done)
   \<and> map id_field (stepAnalyses (fst (snd example_run)))
        = map id_field (map_idx (parse_step (\<lambda>i. 17)) example_steps)
   \<and> length (stepAnalyses (fst (snd example_run))) = 2
   \<and> stepAnalyses (example_App\<lparr>selectedSheetsMap := []\<rparr>) = stepAnalyses example_App"
proof -
  have ex: "executeStep example_analyzer (activeSheets example_done) 1
     (stepAnalyses example_done) (stepAnalyses example_done, 0)
       = (fst example_exec, fst (snd example_exec), snd (snd example_exec))"
    by (simp add: example_exec_def)
  have rerun: "handleReAnalyzeStep example_analyzer
     (step_prefix @ [0x31, 0x37, 0x2D, 0x31]) [0x74] [0x64] example_done 0
       = (fst example_rerun, fst (snd example_rerun), snd (snd example_rerun))"
    by (simp add: example_rerun_def)
  have run0: "runAnalysis example_analyzer (\<lambda>i. 17) (Some example_steps) example_App 0
       = (fst example_run, fst (snd example_run), snd (snd example_run))"
    by (simp add: example_run_def)
  have ne: "example_steps \<noteq> []"
    by (simp add: example_steps_def)
  note inst = C6_no_individual_deletion [where an = example_analyzer
      and act = "activeSheets example_done" and index = 1
      and cur = "stepAnalyses example_done" and prev = "stepAnalyses example_done" and w = 0
      and tr = "fst example_exec" and fin = "fst (snd example_exec)"
      and c = "snd (snd example_exec)"
      and id' = "step_prefix @ [0x31, 0x37, 0x2D, 0x31]" and newTitle = "[0x74]"
      and newDescription = "[0x64]" and st = example_done
      and ?tr1.0 = "fst example_rerun" and ?st1.0 = "fst (snd example_rerun)"
      and ?c1.0 = "snd (snd example_rerun)"]
  note inst2 = C6_no_individual_deletion [where an = example_analyzer and w = 0
      and st = example_App and now = "\<lambda>i. 17" and cs = example_steps
      and ?tr2.0 = "fst example_run" and ?st2.0 = "fst (snd example_run)"
      and ?c2.0 = "snd (snd example_run)" and fileIdx = 0
      and ?st3.0 = "example_App\<lparr>selectedSheetsMap := []\<rparr>"]
  from inst [THEN conjunct1, THEN mp, OF ex, THEN spec, of "fst (snd example_exec)"]
  have "map id_field (fst (snd example_exec)) = map id_field (stepAnalyses example_done)"
    by simp
  moreover
  from inst [THEN conjunct2, THEN conjunct1, THEN mp, OF rerun, THEN spec,
      of "stepAnalyses (fst (snd example_rerun))"]
  have "map id_field (stepAnalyses (fst (snd example_rerun)))
        = map id_field (stepAnalyses example_done)"
    by simp
  moreover
  from inst2 [THEN conjunct2, THEN conjunct2, THEN conjunct1, THEN mp, OF conjI [OF run0 ne]]
  obtain rest where "\<forall>s. s \<in> set rest \<or> s = stepAnalyses (fst (snd example_run)) \<longrightarrow>
      map id_field s = map id_field (map_idx (parse_step (\<lambda>i. 17)) example_steps)"
    by (elim exE conjE)
  from this [THEN spec, of "stepAnalyses (fst (snd example_run))"]
  have "map id_field (stepAnalyses (fst (snd example_run)))
        = map id_field (map_idx (parse_step (\<lambda>i. 17)) example_steps)"
    by simp
  moreover
  from inst2 [THEN conjunct2, THEN conjunct2, THEN conjunct2, THEN conjunct2, THEN conjunct2,
      THEN conjunct2, THEN conjunct2, THEN conjunct2, THEN mp, OF example_toggle]
  have "stepAnalyses (example_App\<lparr>selectedSheetsMap := []\<rparr>) = stepAnalyses example_App" .
  moreover have "length (stepAnalyses (fst (snd example_run))) = 2"
    using example_done_steps by (simp add: example_done_def)
  ultimately show ?thesis using ne example_toggle by (intro conjI)
qed

section \<open>The result of a step\<close>

lemma run_steps_done:
  assumes "run_steps an act init i (steps, w) = (tr, fin, c)"
  shows "length steps = length init \<Longrightarrow>
         (\<forall>k. i \<le> k \<and> k < length init \<longrightarrow>
              status (steps ! k) = Pending \<and> title (steps ! k) = title (init ! k)
            \<and> description (steps ! k) = description (init ! k)) \<Longrightarrow>
         i \<le> j \<Longrightarrow> j < length init \<Longrightarrow> status (fin ! j) = Done \<Longrightarrow>
         \<exists>sample cols res.
            AnalyzeCall j (title (fin ! j)) (description (fin ! j)) sample cols \<in> set tr
          \<and> AnalyzeReturned j res \<in> set tr \<and> result (fin ! j) = Some res"
  using assms
proof (induction rule: run_steps_induct)
  case (stop i steps w)
  then show ?case by simp
next
  case (suspend i steps w tr1 s1)
  have pend: "status (steps ! j) = Pending" using suspend.prems by simp
  show ?case
  proof (cases "j = i")
    case True
    have lt: "i < length steps" using suspend(1) suspend.prems(1) by simp
    have nd: "status (steps ! i) \<noteq> Done" using pend True by simp
    have dn: "status (s1 ! i) = Done" using suspend.prems(5) True by simp
    from executeStep_done_final [OF suspend(2) lt nd dn]
    have "s1 \<in> set (steps_written tr1)" .
    from executeStep_done [OF suspend(2) this lt dn] show ?thesis by auto
  next
    case False
    have "s1 ! j = steps ! j"
      using executeStep_frame(2) [OF suspend(2), of s1 j] False suspend.prems by simp
    with pend suspend.prems(5) show ?thesis by simp
  qed
next
  case (continue i steps w tr1 s1 w1 tr2 fin c)
  have len: "length s1 = length init"
    using executeStep_frame(1) [OF continue(2), of s1] continue.prems by simp
  show ?case
  proof (cases "j = i")
    case True
    have lt: "i < length steps" using continue(1) continue.prems(1) by simp
    have hyp: "status (steps ! i) = Pending" "title (steps ! i) = title (init ! i)"
      "description (steps ! i) = description (init ! i)"
      using continue.prems(2) continue(1) by simp_all
    have same: "fin ! i = s1 ! i"
      using run_steps_below [OF continue(3), of i] len continue(1) by simp
    have nd: "status (steps ! i) \<noteq> Done" using hyp by simp
    have dn: "status (s1 ! i) = Done" using continue.prems(5) True same by simp
    from executeStep_done_final [OF continue(2) lt nd dn]
    have wr: "s1 \<in> set (steps_written tr1)" .
    from executeStep_done [OF continue(2) wr lt dn] obtain step sample cols res where
      st: "at_index init i = Some step"
      and call: "AnalyzeCall i (title step) (description step) sample (new_Set cols) \<in> set tr1"
      and ret: "AnalyzeReturned i res \<in> set tr1"
      and res: "result (s1 ! i) = Some res"
      by blast
    from st continue(1) have step: "step = init ! i"
      by (simp add: at_index_def)
    have "title (s1 ! i) = title (steps ! i)" "description (s1 ! i) = description (steps ! i)"
      using executeStep_frame(4,5) [OF continue(2), of s1 i] lt by simp_all
    with hyp step same have "title step = title (fin ! i)" "description step = description (fin ! i)"
      by simp_all
    with call ret res same True show ?thesis by auto
  next
    case False
    with continue.prems have j: "Suc i \<le> j" by simp
    have hyp: "\<forall>k. Suc i \<le> k \<and> k < length init \<longrightarrow>
              status (s1 ! k) = Pending \<and> title (s1 ! k) = title (init ! k)
            \<and> description (s1 ! k) = description (init ! k)"
    proof (intro allI impI)
      fix k assume k: "Suc i \<le> k \<and> k < length init"
      then have "s1 ! k = steps ! k"
        using executeStep_frame(2) [OF continue(2), of s1 k] continue.prems(1) by simp
      with k continue.prems(2) show "status (s1 ! k) = Pending \<and> title (s1 ! k) = title (init ! k)
            \<and> description (s1 ! k) = description (init ! k)" by simp
    qed
    from continue.IH [OF len hyp j continue.prems(4,5)] show ?thesis by auto
  qed
qed

text \<open>
  Claim C7. Whenever a step reaches \<open>done\<close>, its result is the value that
  \<open>analyzeSingleStep\<close> returned. In one execution: a written value that shows the executed
  step \<open>done\<close> is the final one, \<open>analyzeSingleStep\<close> was called with the title and
  description of \<open>currentSteps[index]\<close>, the combined sample and the combined columns, it
  returned \<open>res\<close>, and the result stored is exactly \<open>res\<close>. In \<open>runAnalysis\<close>: a step that
  ends \<open>done\<close> has as result the value returned by the call made for it, and that call was
  made with the step's own title and description.
\<close>

theorem C7_result_is_returned_value:
  "(executeStep an act index cur (prev, w) = (tr, fin, c) \<and> index < length prev \<longrightarrow>
      (\<forall>s. s \<in> set (steps_written tr) \<and> status (s ! index) = Done \<longrightarrow>
         (\<exists>step sample cols res w'.
             at_index cur index = Some step
           \<and> flatMap_sheets (\<lambda>s. take 50 (rows s)) act = Inr sample
           \<and> flatMap_sheets columns act = Inr cols
           \<and> an w (title step) (description step) sample (new_Set cols) = (Fulfilled res, w')
           \<and> result (s ! index) = Some res \<and> s = fin \<and> c = Settled w'
           \<and> AnalyzeCall index (title step) (description step) sample (new_Set cols) \<in> set tr
           \<and> AnalyzeReturned index res \<in> set tr)))
 \<and> (runAnalysis an now (Some cs) st w = (tr', st', c') \<and> cs \<noteq> [] \<longrightarrow>
      (\<forall>i. i < length cs \<and> status (stepAnalyses st' ! i) = Done \<longrightarrow>
         (\<exists>sample cols res.
             AnalyzeCall i (title (stepAnalyses st' ! i)) (description (stepAnalyses st' ! i))
               sample cols \<in> set tr'
           \<and> AnalyzeReturned i res \<in> set tr'
           \<and> result (stepAnalyses st' ! i) = Some res)))"
proof (rule conjI)
  show "executeStep an act index cur (prev, w) = (tr, fin, c) \<and> index < length prev \<longrightarrow>
      (\<forall>s. s \<in> set (steps_written tr) \<and> status (s ! index) = Done \<longrightarrow>
         (\<exists>step sample cols res w'.
             at_index cur index = Some step
           \<and> flatMap_sheets (\<lambda>s. take 50 (rows s)) act = Inr sample
           \<and> flatMap_sheets columns act = Inr cols
           \<and> an w (title step) (description step) sample (new_Set cols) = (Fulfilled res, w')
           \<and> result (s ! index) = Some res \<and> s = fin \<and> c = Settled w'
           \<and> AnalyzeCall index (title step) (description step) sample (new_Set cols) \<in> set tr
           \<and> AnalyzeReturned index res \<in> set tr))"
  proof (intro impI allI)
    fix s
    assume "executeStep an act index cur (prev, w) = (tr, fin, c) \<and> index < length prev"
      and "s \<in> set (steps_written tr) \<and> status (s ! index) = Done"
    then have a: "executeStep an act index cur (prev, w) = (tr, fin, c)"
      and b: "index < length prev" and d: "s \<in> set (steps_written tr)"
      and e: "status (s ! index) = Done"
      by simp_all
    show "\<exists>step sample cols res w'.
             at_index cur index = Some step
           \<and> flatMap_sheets (\<lambda>s. take 50 (rows s)) act = Inr sample
           \<and> flatMap_sheets columns act = Inr cols
           \<and> an w (title step) (description step) sample (new_Set cols) = (Fulfilled res, w')
           \<and> result (s ! index) = Some res \<and> s = fin \<and> c = Settled w'
           \<and> AnalyzeCall index (title step) (description step) sample (new_Set cols) \<in> set tr
           \<and> AnalyzeReturned index res \<in> set tr"
      by (rule executeStep_done [OF a d b e])
  qed
next
  show "runAnalysis an now (Some cs) st w = (tr', st', c') \<and> cs \<noteq> [] \<longrightarrow>
      (\<forall>i. i < length cs \<and> status (stepAnalyses st' ! i) = Done \<longrightarrow>
         (\<exists>sample cols res.
             AnalyzeCall i (title (stepAnalyses st' ! i)) (description (stepAnalyses st' ! i))
               sample cols \<in> set tr'
           \<and> AnalyzeReturned i res \<in> set tr'
           \<and> result (stepAnalyses st' ! i) = Some res))"
  proof (intro impI allI)
    fix i
    assume "runAnalysis an now (Some cs) st w = (tr', st', c') \<and> cs \<noteq> []"
      and "i < length cs \<and> status (stepAnalyses st' ! i) = Done"
    then have run: "runAnalysis an now (Some cs) st w = (tr', st', c')" and ne: "cs \<noteq> []"
      and i: "i < length cs" and dn: "status (stepAnalyses st' ! i) = Done"
      by simp_all
    let ?init = "map_idx (parse_step now) cs"
    from runAnalysis_run [OF run ne] obtain tr0 where
      rs: "run_steps an (activeSheets st) ?init 0 (?init, w) = (tr0, stepAnalyses st', c')"
      and tr: "tr' = StepsSet ?init # tr0"
      by blast
    have hyp: "\<forall>k. 0 \<le> k \<and> k < length ?init \<longrightarrow>
              status (?init ! k) = Pending \<and> title (?init ! k) = title (?init ! k)
            \<and> description (?init ! k) = description (?init ! k)"
      by simp
    have i': "i < length ?init" using i by simp
    from run_steps_done [OF rs refl hyp _ i' dn] obtain sample cols res where
      "AnalyzeCall i (title (stepAnalyses st' ! i)) (description (stepAnalyses st' ! i))
               sample cols \<in> set tr0"
      "AnalyzeReturned i res \<in> set tr0" "result (stepAnalyses st' ! i) = Some res"
      by auto
    then show "\<exists>sample cols res.
             AnalyzeCall i (title (stepAnalyses st' ! i)) (description (stepAnalyses st' ! i))
               sample cols \<in> set tr'
           \<and> AnalyzeReturned i res \<in> set tr'
           \<and> result (stepAnalyses st' ! i) = Some res"
      unfolding tr by auto
  qed
qed

lemma example_exec_trace:
  "steps_written (fst example_exec) =
     [[\<lparr>id_field = step_prefix @ [0x31, 0x37, 0x2D, 0x30], title = [0x61],
        description = [0x62, 0x3A, 0x63], status = Done, result = Some example_result\<rparr>,
      \<lparr>id_field = step_prefix @ [0x31, 0x37, 0x2D, 0x31],
        title = [0x5206, 0x6790, 0x6B65, 0x9AA4, 0x20, 0x32],
        description = [0x20, 0x3A, 0x20], status = Analyzing, result = None\<rparr>],
      fst (snd example_exec)]"
  by (simp add: example_exec_def rerun_defs)

lemma example_run_final:
  "status (stepAnalyses (fst (snd example_run)) ! 0) = Done"
  "result (stepAnalyses (fst (snd example_run)) ! 0) = Some example_result"
  using example_done_steps by (simp_all add: example_done_def)

theorem C7_result_is_returned_value_witness:
  "(1::nat) < length (stepAnalyses example_done)
   \<and> fst (snd example_exec) \<in> set (steps_written (fst example_exec))
   \<and> status (fst (snd example_exec) ! 1) = Done
   \<and> (\<exists>step sample cols res w'.
         at_index (stepAnalyses example_done) 1 = Some step
       \<and> example_analyzer 0 (title step) (description step) sample (new_Set cols)
            = (Fulfilled res, w')
       \<and> result (fst (snd example_exec) ! 1) = Some res)
   \<and> result (fst (snd example_exec) ! 1) = Some example_result
   \<and> example_steps \<noteq> [] \<and> 0 < length example_steps
   \<and> status (stepAnalyses (fst (snd example_run)) ! 0) = Done
   \<and> (\<exists>res. AnalyzeReturned 0 res \<in> set (fst example_run)
          \<and> result (stepAnalyses (fst (snd example_run)) ! 0) = Some res)"
proof -
  have ex: "executeStep example_analyzer (activeSheets example_done) 1
     (stepAnalyses example_done) (stepAnalyses example_done, 0)
       = (fst example_exec, fst (snd example_exec), snd (snd example_exec))"
    by (simp add: example_exec_def)
  have run: "runAnalysis example_analyzer (\<lambda>i. 17) (Some example_steps) example_App 0
       = (fst example_run, fst (snd example_run), snd (snd example_run))"
    by (simp add: example_run_def)
  have ne: "example_steps \<noteq> []" and i: "0 < length example_steps"
    by (simp_all add: example_steps_def)
  have len: "(1::nat) < length (stepAnalyses example_done)"
    by (simp add: example_done_steps)
  have wr: "fst (snd example_exec) \<in> set (steps_written (fst example_exec))"
    by (simp add: example_exec_trace)
  have dn: "status (fst (snd example_exec) ! 1) = Done"
    and rs: "result (fst (snd example_exec) ! 1) = Some example_result"
    by (simp_all add: example_exec_steps)
  note inst = C7_result_is_returned_value [where an = example_analyzer
      and act = "activeSheets example_done" and index = 1
      and cur = "stepAnalyses example_done" and prev = "stepAnalyses example_done" and w = 0
      and tr = "fst example_exec" and fin = "fst (snd example_exec)"
      and c = "snd (snd example_exec)" and now = "\<lambda>i. 17" and cs = example_steps
      and st = example_App and tr' = "fst example_run" and st' = "fst (snd example_run)"
      and c' = "snd (snd example_run)"]
  from inst [THEN conjunct1, THEN mp, OF conjI [OF ex len], THEN spec, THEN mp, OF conjI [OF wr dn]]
  have one: "\<exists>step sample cols res w'.
         at_index (stepAnalyses example_done) 1 = Some step
       \<and> example_analyzer 0 (title step) (description step) sample (new_Set cols)
            = (Fulfilled res, w')
       \<and> result (fst (snd example_exec) ! 1) = Some res"
    by (elim exE conjE) (intro exI conjI)
  from inst [THEN conjunct2, THEN mp, OF conjI [OF run ne], THEN spec, THEN mp,
      OF conjI [OF i example_run_final(1)]]
  have two: "\<exists>res. AnalyzeReturned 0 res \<in> set (fst example_run)
          \<and> result (stepAnalyses (fst (snd example_run)) ! 0) = Some res"
    by (elim exE conjE) (intro exI conjI)
  from len wr dn one rs ne i example_run_final(1) two show ?thesis
    by (intro conjI)
qed

section \<open>Nothing selected\<close>

lemma run_steps_idle_aux:
  assumes "run_steps an act init i (steps, w) = (tr, fin, c)"
  shows "act = [] \<Longrightarrow>
         tr = concat (map (\<lambda>k. [ExecStart k, ExecEnd k]) [i..<length init])
       \<and> fin = steps \<and> c = Settled w"
  using assms
proof (induction rule: run_steps_induct)
  case (stop i steps w)
  then show ?case by simp
next
  case (suspend i steps w tr1 s1)
  then show ?case by (simp add: executeStep_idle)
next
  case (continue i steps w tr1 s1 w1 tr2 fin c)
  from continue(2) continue.prems
  have "tr1 = [ExecStart i, ExecEnd i]" "s1 = steps" "w1 = w"
    by (simp_all add: executeStep_idle)
  with continue.IH [OF continue.prems] continue(1) show ?case
    by (simp add: upt_conv_Cons)
qed

lemma run_steps_idle:
  "run_steps an [] init i (steps, w) =
     (concat (map (\<lambda>k. [ExecStart k, ExecEnd k]) [i..<length init]), steps, Settled w)"
proof -
  obtain tr fin c where r: "run_steps an [] init i (steps, w) = (tr, fin, c)"
    by (metis prod_cases3)
  from run_steps_idle_aux [OF r refl] r show ?thesis by simp
qed

lemma runAnalysis_idle:
  assumes "activeSheets st = []" and "cs \<noteq> []"
  shows "runAnalysis an now (Some cs) st w =
     (StepsSet (map_idx (parse_step now) cs)
        # concat (map (\<lambda>k. [ExecStart k, ExecEnd k]) [0..<length cs]),
      st\<lparr>stepAnalyses := map_idx (parse_step now) cs\<rparr>, Settled w)"
  using assms by (simp add: runAnalysis_def run_steps_idle Let_def)

lemma handleReAnalyzeStep_idle:
  assumes "activeSheets st = []"
    and "findIndex (\<lambda>s. id_field s = id') (stepAnalyses st) = Some index"
  shows "handleReAnalyzeStep an id' nt nd st w =
     ([StepsSet ((stepAnalyses st) [index := (stepAnalyses st ! index)
                   \<lparr>title := nt, description := nd, status := Analyzing\<rparr>]),
       ExecStart index, ExecEnd index],
      st\<lparr>stepAnalyses := (stepAnalyses st) [index := (stepAnalyses st ! index)
                   \<lparr>title := nt, description := nd, status := Analyzing\<rparr>]\<rparr>,
      Settled w)"
  using assms by (simp add: handleReAnalyzeStep_def executeStep_idle Let_def)

text \<open>
  Claim C9. With no active sheet \<open>executeStep\<close> returns at once and writes nothing.
  So \<open>runAnalysis\<close> on a non-empty list with no active sheet writes only the list it
  built, calls \<open>analyzeSingleStep\<close> for no step, and ends with every step \<open>pending\<close> and
  without result; and \<open>handleReAnalyzeStep\<close> for a step that exists writes only its
  initial update and ends with that step \<open>analyzing\<close>, its result unchanged.
\<close>

theorem C9_empty_selection:
  "executeStep an [] index cur (prev, w) = ([ExecStart index, ExecEnd index], prev, Settled w)
 \<and> (activeSheets st = [] \<and> cs \<noteq> [] \<longrightarrow>
      runAnalysis an now (Some cs) st w =
        (StepsSet (map_idx (parse_step now) cs)
           # concat (map (\<lambda>k. [ExecStart k, ExecEnd k]) [0..<length cs]),
         st\<lparr>stepAnalyses := map_idx (parse_step now) cs\<rparr>, Settled w)
    \<and> list_all (\<lambda>s. status s = Pending \<and> result s = None) (map_idx (parse_step now) cs)
    \<and> length (map_idx (parse_step now) cs) = length cs)
 \<and> (activeSheets st = []
      \<and> findIndex (\<lambda>s. id_field s = id') (stepAnalyses st) = Some index \<longrightarrow>
      handleReAnalyzeStep an id' newTitle newDescription st w =
        ([StepsSet ((stepAnalyses st) [index := (stepAnalyses st ! index)
                   \<lparr>title := newTitle, description := newDescription, status := Analyzing\<rparr>]),
          ExecStart index, ExecEnd index],
         st\<lparr>stepAnalyses := (stepAnalyses st) [index := (stepAnalyses st ! index)
                   \<lparr>title := newTitle, description := newDescription, status := Analyzing\<rparr>]\<rparr>,
         Settled w)
    \<and> status ((stepAnalyses st) [index := (stepAnalyses st ! index)
                   \<lparr>title := newTitle, description := newDescription, status := Analyzing\<rparr>]
                ! index) = Analyzing
    \<and> result ((stepAnalyses st) [index := (stepAnalyses st ! index)
                   \<lparr>title := newTitle, description := newDescription, status := Analyzing\<rparr>]
                ! index) = result (stepAnalyses st ! index))"
proof (intro conjI impI)
  show "executeStep an [] index cur (prev, w) = ([ExecStart index, ExecEnd index], prev, Settled w)"
    by (rule executeStep_idle)
next
  assume "activeSheets st = [] \<and> cs \<noteq> []"
  then show "runAnalysis an now (Some cs) st w =
        (StepsSet (map_idx (parse_step now) cs)
           # concat (map (\<lambda>k. [ExecStart k, ExecEnd k]) [0..<length cs]),
         st\<lparr>stepAnalyses := map_idx (parse_step now) cs\<rparr>, Settled w)"
    by (simp add: runAnalysis_idle)
next
  show "list_all (\<lambda>s. status s = Pending \<and> result s = None) (map_idx (parse_step now) cs)"
    by (simp add: list_all_length)
next
  show "length (map_idx (parse_step now) cs) = length cs" by simp
next
  assume "activeSheets st = []
      \<and> findIndex (\<lambda>s. id_field s = id') (stepAnalyses st) = Some index"
  then show "handleReAnalyzeStep an id' newTitle newDescription st w =
        ([StepsSet ((stepAnalyses st) [index := (stepAnalyses st ! index)
                   \<lparr>title := newTitle, description := newDescription, status := Analyzing\<rparr>]),
          ExecStart index, ExecEnd index],
         st\<lparr>stepAnalyses := (stepAnalyses st) [index := (stepAnalyses st ! index)
                   \<lparr>title := newTitle, description := newDescription, status := Analyzing\<rparr>]\<rparr>,
         Settled w)"
    by (simp add: handleReAnalyzeStep_idle)
next
  assume "activeSheets st = []
      \<and> findIndex (\<lambda>s. id_field s = id') (stepAnalyses st) = Some index"
  then have "index < length (stepAnalyses st)"
    by (simp add: findIndex_Some)
  then show "status ((stepAnalyses st) [index := (stepAnalyses st ! index)
                   \<lparr>title := newTitle, description := newDescription, status := Analyzing\<rparr>]
                ! index) = Analyzing"
    and "result ((stepAnalyses st) [index := (stepAnalyses st ! index)
                   \<lparr>title := newTitle, description := newDescription, status := Analyzing\<rparr>]
                ! index) = result (stepAnalyses st ! index)"
    by simp_all
qed


lemma example_unselected_steps:
  "stepAnalyses example_unselected = stepAnalyses example_done"
  by (simp add: example_unselected_def)

lemma example_unselected_facts:
  "activeSheets example_unselected = []"
  "activeSheets (initial_App :: nat App) = []"
  "findIndex (\<lambda>s. id_field s = step_prefix @ [0x31, 0x37, 0x2D, 0x31])
     (stepAnalyses example_unselected) = Some 1"
  "stepAnalyses example_unselected = stepAnalyses example_done"
proof -
  show "activeSheets example_unselected = []"
    by (simp add: activeSheets_def example_unselected_def split: option.splits)
  show "activeSheets (initial_App :: nat App) = []"
    by (simp add: activeSheets_def initial_App_def)
  show "findIndex (\<lambda>s. id_field s = step_prefix @ [0x31, 0x37, 0x2D, 0x31])
     (stepAnalyses example_unselected) = Some 1"
    by (simp add: example_unselected_steps example_done_steps findIndex_def step_prefix_def)
  show "stepAnalyses example_unselected = stepAnalyses example_done"
    by (rule example_unselected_steps)
qed

theorem C9_empty_selection_witness:
  "activeSheets (initial_App :: nat App) = [] \<and> example_steps \<noteq> []
   \<and> map status (stepAnalyses (fst (snd
        (runAnalysis example_analyzer (\<lambda>i. 17) (Some example_steps) initial_App 0))))
        = [Pending, Pending]
   \<and> snd (snd (runAnalysis example_analyzer (\<lambda>i. 17) (Some example_steps) initial_App 0))
        = Settled 0
   \<and> activeSheets example_unselected = []
   \<and> findIndex (\<lambda>s. id_field s = step_prefix @ [0x31, 0x37, 0x2D, 0x31])
        (stepAnalyses example_unselected) = Some 1
   \<and> status (stepAnalyses (fst (snd (handleReAnalyzeStep example_analyzer
        (step_prefix @ [0x31, 0x37, 0x2D, 0x31]) [0x74] [0x64] example_unselected 0))) ! 1)
        = Analyzing
   \<and> result (stepAnalyses (fst (snd (handleReAnalyzeStep example_analyzer
        (step_prefix @ [0x31, 0x37, 0x2D, 0x31]) [0x74] [0x64] example_unselected 0))) ! 1)
        = None"
proof -
  have ne: "example_steps \<noteq> []"
    by (simp add: example_steps_def)
  note inst = C9_empty_selection [where an = example_analyzer and w = 0
      and st = "initial_App :: nat App" and now = "\<lambda>i. 17" and cs = example_steps]
  note inst2 = C9_empty_selection [where an = example_analyzer and w = 0
      and st = example_unselected and id' = "step_prefix @ [0x31, 0x37, 0x2D, 0x31]"
      and index = 1 and newTitle = "[0x74]" and newDescription = "[0x64]"]
  from inst [THEN conjunct2, THEN conjunct1, THEN mp, OF conjI [OF example_unselected_facts(2) ne]]
  have run: "runAnalysis example_analyzer (\<lambda>i. 17) (Some example_steps) initial_App 0 =
        (StepsSet (map_idx (parse_step (\<lambda>i. 17)) example_steps)
           # concat (map (\<lambda>k. [ExecStart k, ExecEnd k]) [0..<length example_steps]),
         initial_App\<lparr>stepAnalyses := map_idx (parse_step (\<lambda>i. 17)) example_steps\<rparr>, Settled 0)"
    by (rule conjunct1)
  have a: "map status (stepAnalyses (fst (snd
        (runAnalysis example_analyzer (\<lambda>i. 17) (Some example_steps) initial_App 0))))
        = [Pending, Pending]"
    and b: "snd (snd (runAnalysis example_analyzer (\<lambda>i. 17) (Some example_steps) initial_App 0))
        = Settled 0"
    unfolding run by (simp_all add: example_steps_def map_idx_def)
  from inst2 [THEN conjunct2, THEN conjunct2, THEN mp,
      OF conjI [OF example_unselected_facts(1) example_unselected_facts(3)]]
  have rerun: "handleReAnalyzeStep example_analyzer
        (step_prefix @ [0x31, 0x37, 0x2D, 0x31]) [0x74] [0x64] example_unselected 0 =
        ([StepsSet ((stepAnalyses example_unselected) [1 := (stepAnalyses example_unselected ! 1)
                   \<lparr>title := [0x74], description := [0x64], status := Analyzing\<rparr>]),
          ExecStart 1, ExecEnd 1],
         example_unselected\<lparr>stepAnalyses := (stepAnalyses example_unselected)
                [1 := (stepAnalyses example_unselected ! 1)
                   \<lparr>title := [0x74], description := [0x64], status := Analyzing\<rparr>]\<rparr>,
         Settled 0)"
    by (rule conjunct1)
  have d: "status (stepAnalyses (fst (snd (handleReAnalyzeStep example_analyzer
        (step_prefix @ [0x31, 0x37, 0x2D, 0x31]) [0x74] [0x64] example_unselected 0))) ! 1)
        = Analyzing"
    and e: "result (stepAnalyses (fst (snd (handleReAnalyzeStep example_analyzer
        (step_prefix @ [0x31, 0x37, 0x2D, 0x31]) [0x74] [0x64] example_unselected 0))) ! 1)
        = None"
    unfolding rerun by (simp_all add: example_unselected_facts(4) example_done_steps)
  from example_unselected_facts(2) ne a b example_unselected_facts(1) example_unselected_facts(3) d e
  show ?thesis by (intro conjI)
qed

section \<open>Parsing the custom steps\<close>

lemma split_on_not_Nil [simp]: "split_on c s \<noteq> []"
  by (induction s) (auto split: list.splits)

lemma join_Cons_Cons: "join sep ((x # p) # ps) = x # join sep (p # ps)"
  by (cases ps) simp_all

lemma join_split_on: "join [c] (split_on c s) = s"
proof (induction s)
  case Nil
  show ?case by simp
next
  case (Cons x xs)
  obtain p ps where sp: "split_on c xs = p # ps"
    using split_on_not_Nil [of c xs] by (cases "split_on c xs") auto
  show ?case
  proof (cases "x = c")
    case True
    with Cons sp show ?thesis by simp
  next
    case False
    with Cons sp show ?thesis by (simp add: join_Cons_Cons)
  qed
qed

lemma split_on_parts:
  "\<exists>ps. split_on c s = takeWhile (\<lambda>x. x \<noteq> c) s # ps
      \<and> join [c] ps = drop 1 (dropWhile (\<lambda>x. x \<noteq> c) s)"
proof (induction s)
  case Nil
  show ?case by simp
next
  case (Cons x xs)
  show ?case
  proof (cases "x = c")
    case True
    then show ?thesis by (simp add: join_split_on)
  next
    case False
    with Cons show ?thesis by auto
  qed
qed

lemma parse_step_fields:
  "title (parse_step now s idx) =
     (if trim (text_before_first_colon s) = [] then default_title (idx + 1)
      else trim (text_before_first_colon s))"
  "description (parse_step now s idx) =
     (if trim (text_after_first_colon s) = [] then s else trim (text_after_first_colon s))"
  "id_field (parse_step now s idx) = step_prefix @ toString (now idx) @ [0x2D] @ toString idx"
proof -
  from split_on_parts [of colon s] obtain ps where
    sp: "split_on colon s = takeWhile (\<lambda>x. x \<noteq> colon) s # ps"
    and jn: "join [colon] ps = drop 1 (dropWhile (\<lambda>x. x \<noteq> colon) s)"
    by blast
  show "title (parse_step now s idx) =
     (if trim (text_before_first_colon s) = [] then default_title (idx + 1)
      else trim (text_before_first_colon s))"
    by (simp add: parse_step_def Let_def sp at_index_def text_before_first_colon_def)
  show "description (parse_step now s idx) =
     (if trim (text_after_first_colon s) = [] then s else trim (text_after_first_colon s))"
    by (simp add: parse_step_def Let_def sp jn text_after_first_colon_def)
  show "id_field (parse_step now s idx) = step_prefix @ toString (now idx) @ [0x2D] @ toString idx"
    by (simp add: parse_step_def Let_def)
qed

text \<open>
  Claim C10. \<open>runAnalysis\<close> reads each custom step \<open>s\<close> as \<open>Title: Description\<close>. The step
  built for position \<open>i\<close> (counted from 0) has as title the text before the first colon,
  trimmed, or the default title followed by the decimal digits of \<open>i + 1\<close> when that is
  empty; and as description the text after the first colon (later colons kept), trimmed,
  or the whole of \<open>s\<close> when that is empty. It is \<open>pending\<close> and has no result.
\<close>

theorem C10_step_parsing:
  assumes run: "runAnalysis an now (Some cs) st w = (tr, st', c)"
    and ne: "cs \<noteq> []" and i: "i < length cs"
  shows "\<exists>init rest. tr = StepsSet init # rest \<and> length init = length cs
       \<and> title (init ! i) =
           (if trim (text_before_first_colon (cs ! i)) = []
            then [0x5206, 0x6790, 0x6B65, 0x9AA4, 0x20] @ toString (i + 1)
            else trim (text_before_first_colon (cs ! i)))
       \<and> description (init ! i) =
           (if trim (text_after_first_colon (cs ! i)) = [] then cs ! i
            else trim (text_after_first_colon (cs ! i)))
       \<and> status (init ! i) = Pending \<and> result (init ! i) = None
       \<and> text_before_first_colon (cs ! i) = takeWhile (\<lambda>x. x \<noteq> 0x3A) (cs ! i)
       \<and> text_after_first_colon (cs ! i) = drop 1 (dropWhile (\<lambda>x. x \<noteq> 0x3A) (cs ! i))"
proof -
  let ?init = "map_idx (parse_step now) cs"
  from runAnalysis_run [OF run ne] obtain tr' where tr: "tr = StepsSet ?init # tr'"
    by blast
  have "length ?init = length cs" by simp
  moreover have "?init ! i = parse_step now (cs ! i) i" using i by simp
  ultimately show ?thesis
    using tr
    by (intro exI [of _ ?init] exI [of _ tr'])
      (simp add: parse_step_fields default_title_def text_before_first_colon_def
        text_after_first_colon_def colon_def)
qed

lemma example_parts:
  "trim (text_before_first_colon (example_steps ! 1)) = []"
  "trim (text_after_first_colon (example_steps ! 1)) = []"
  "trim (text_before_first_colon (example_steps ! 0)) = [0x61]"
  "trim (text_after_first_colon (example_steps ! 0)) = [0x62, 0x3A, 0x63]"
  "[0x5206, 0x6790, 0x6B65, 0x9AA4, 0x20] @ toString (1 + 1)
     = [0x5206, 0x6790, 0x6B65, 0x9AA4, 0x20, 0x32]"
  "example_steps ! 1 = [0x20, 0x3A, 0x20]"
  "trim (text_before_first_colon [0x20, 0x3A, 0x20]) = []"
  "trim (text_after_first_colon [0x20, 0x3A, 0x20]) = []"
  by (simp_all add: example_steps_def text_before_first_colon_def text_after_first_colon_def
      colon_def trim_def is_space_def toString.simps)

theorem C10_step_parsing_witness:
  "example_steps \<noteq> [] \<and> 1 < length example_steps
   \<and> (\<exists>init rest. fst example_run = StepsSet init # rest
         \<and> length init = length example_steps
         \<and> title (init ! 1) = [0x5206, 0x6790, 0x6B65, 0x9AA4, 0x20, 0x32]
         \<and> description (init ! 1) = [0x20, 0x3A, 0x20]
         \<and> status (init ! 1) = Pending)"
proof -
  have run: "runAnalysis example_analyzer (\<lambda>i. 17) (Some example_steps) example_App 0
               = (fst example_run, fst (snd example_run), snd (snd example_run))"
    by (simp add: example_run_def)
  have h1: "example_steps \<noteq> []" and h2: "1 < length example_steps"
    by (simp_all add: example_steps_def)
  from C10_step_parsing [OF run h1 h2] obtain init rest where
    a: "fst example_run = StepsSet init # rest" and b: "length init = length example_steps"
    and t: "title (init ! 1) =
           (if trim (text_before_first_colon (example_steps ! 1)) = []
            then [0x5206, 0x6790, 0x6B65, 0x9AA4, 0x20] @ toString (1 + 1)
            else trim (text_before_first_colon (example_steps ! 1)))"
    and d: "description (init ! 1) =
           (if trim (text_after_first_colon (example_steps ! 1)) = [] then example_steps ! 1
            else trim (text_after_first_colon (example_steps ! 1)))"
    and p: "status (init ! 1) = Pending"
    by blast
  from t have t': "title (init ! 1) = [0x5206, 0x6790, 0x6B65, 0x9AA4, 0x20, 0x32]"
    by (simp only: example_parts if_True simp_thms)
  from d have d': "description (init ! 1) = [0x20, 0x3A, 0x20]"
    by (simp only: example_parts if_True simp_thms)
  from a b t' d' p have "fst example_run = StepsSet init # rest
         \<and> length init = length example_steps
         \<and> title (init ! 1) = [0x5206, 0x6790, 0x6B65, 0x9AA4, 0x20, 0x32]
         \<and> description (init ! 1) = [0x20, 0x3A, 0x20]
         \<and> status (init ! 1) = Pending"
    by (intro conjI)
  then have "\<exists>init rest. fst example_run = StepsSet init # rest
         \<and> length init = length example_steps
         \<and> title (init ! 1) = [0x5206, 0x6790, 0x6B65, 0x9AA4, 0x20, 0x32]
         \<and> description (init ! 1) = [0x20, 0x3A, 0x20]
         \<and> status (init ! 1) = Pending"
    by (intro exI)
  with h1 h2 show ?thesis by (intro conjI)
qed

section \<open>The data given to the analysis\<close>

lemma flatMap_sheets_Inr:
  "flatMap_sheets f act = Inr r \<longleftrightarrow> (\<exists>ss. act = map Some ss \<and> r = concat (map f ss))"
proof (induction act arbitrary: r)
  case Nil
  show ?case by auto
next
  case (Cons a act)
  show ?case
  proof (cases a)
    case None
    then show ?thesis by auto
  next
    case (Some s)
    show ?thesis
    proof
      assume "flatMap_sheets f (a # act) = Inr r"
      with Some obtain r' where r': "flatMap_sheets f act = Inr r'" and r: "r = f s @ r'"
        by (auto split: sum.splits)
      from r' Cons.IH obtain ss where "act = map Some ss" "r' = concat (map f ss)"
        by blast
      with Some r have "a # act = map Some (s # ss) \<and> r = concat (map f (s # ss))"
        by simp
      then show "\<exists>ss. a # act = map Some ss \<and> r = concat (map f ss)"
        by (rule exI [of _ "s # ss"])
    next
      assume "\<exists>ss. a # act = map Some ss \<and> r = concat (map f ss)"
      then obtain ss where ss: "a # act = map Some ss" "r = concat (map f ss)"
        by (elim exE conjE)
      then obtain s' ss' where c: "ss = s' # ss'" by (cases ss) auto
      with ss Some have "s' = s" "act = map Some ss'" by simp_all
      with Cons.IH [of "concat (map f ss')"] have "flatMap_sheets f act = Inr (concat (map f ss'))"
        by blast
      with Some ss c \<open>s' = s\<close> show "flatMap_sheets f (a # act) = Inr r"
        by simp
    qed
  qed
qed

lemma first_occurrences_snoc:
  "first_occurrences (xs @ [x]) =
     (if x \<in> set xs then first_occurrences xs else first_occurrences xs @ [x])"
proof -
  have "filter (\<lambda>i. (xs @ [x]) ! i \<notin> set (take i (xs @ [x]))) [0..<length xs]
      = filter (\<lambda>i. xs ! i \<notin> set (take i xs)) [0..<length xs]"
    by (rule filter_cong) (auto simp: nth_append)
  moreover have "map (\<lambda>i. (xs @ [x]) ! i) (filter (\<lambda>i. xs ! i \<notin> set (take i xs)) [0..<length xs])
      = map (\<lambda>i. xs ! i) (filter (\<lambda>i. xs ! i \<notin> set (take i xs)) [0..<length xs])"
    by (rule map_cong) (auto simp: nth_append)
  ultimately show ?thesis
    by (simp add: first_occurrences_def)
qed

lemma new_Set_first_occurrences: "new_Set xs = first_occurrences xs"
proof (induction xs rule: rev_induct)
  case Nil
  show ?case by (simp add: new_Set_def first_occurrences_def)
next
  case (snoc x xs)
  have "set (first_occurrences xs) = set xs"
    using set_new_Set [of xs] snoc by simp
  with snoc show ?case
    by (simp add: new_Set_snoc first_occurrences_snoc Set_add_def)
qed

lemma activeSheets_inner:
  "concat (map (\<lambda>sIdx. case at_index fds f of Some file \<Rightarrow> [at_index (sheets file) sIdx]
                                              | None \<Rightarrow> []) indices)
   = map (\<lambda>(f, s). at_index (sheets (fds ! f)) s)
       (filter (\<lambda>(f, s). f < length fds) (map (\<lambda>sIdx. (f, sIdx)) indices))"
  by (induction indices) (auto simp: at_index_def)

lemma activeSheets_pairs:
  assumes "fileDatas st = Some fds"
  shows "activeSheets st =
     map (\<lambda>(f, s). at_index (sheets (fds ! f)) s)
       (filter (\<lambda>(f, s). f < length fds) (selected_pairs (selectedSheetsMap st)))"
proof -
  have "concat (map (\<lambda>(fIdx, indices).
            concat (map (\<lambda>sIdx.
              (case at_index fds fIdx of
                 Some file \<Rightarrow> [at_index (sheets file) sIdx]
               | None \<Rightarrow> [])) indices)) m)
     = map (\<lambda>(f, s). at_index (sheets (fds ! f)) s)
       (filter (\<lambda>(f, s). f < length fds) (selected_pairs m))" for m
  proof (induction m)
    case Nil
    show ?case by (simp add: selected_pairs_def)
  next
    case (Cons e m)
    obtain f indices where e: "e = (f, indices)" by (cases e)
    have "selected_pairs (e # m) = map (\<lambda>sIdx. (f, sIdx)) indices @ selected_pairs m"
      by (simp add: selected_pairs_def e)
    with Cons show ?case
      by (simp add: e activeSheets_inner)
  qed
  with assms show ?thesis by (simp add: activeSheets_def)
qed

lemma length_sample: "length (concat (map (\<lambda>s. take 50 (rows s)) ss)) \<le> 50 * length ss"
  by (induction ss) auto

text \<open>What a call of \<open>analyzeSingleStep\<close> is given, in terms of the active sheets.\<close>

lemma executeStep_call_data:
  assumes ex: "executeStep an act index cur (prev, w) = (tr, fin, c)"
    and call: "AnalyzeCall j t d sample cols \<in> set tr"
  shows "\<exists>ss. act = map Some ss
            \<and> sample = concat (map (\<lambda>s. take 50 (rows s)) ss)
            \<and> cols = first_occurrences (concat (map columns ss))"
proof -
  from executeStep_shapes [OF ex] call
  obtain cols0 where a: "flatMap_sheets (\<lambda>s. take 50 (rows s)) act = Inr sample"
    and b: "flatMap_sheets columns act = Inr cols0" and c: "cols = new_Set cols0"
    by (elim disjE exE conjE) simp_all
  from a obtain ss where ss: "act = map Some ss" "sample = concat (map (\<lambda>s. take 50 (rows s)) ss)"
    by (auto simp: flatMap_sheets_Inr)
  from b obtain ss' where ss': "act = map Some ss'" "cols0 = concat (map columns ss')"
    by (auto simp: flatMap_sheets_Inr)
  from ss(1) ss'(1) have "map Some ss' = map Some ss" by simp
  then have "ss' = ss"
    by (simp add: inj_map_eq_map)
  with ss ss' c show ?thesis
    by (simp add: new_Set_first_occurrences)
qed

lemma run_steps_call_data:
  assumes "run_steps an act init i (steps, w) = (tr, fin, c)"
  shows "AnalyzeCall j t d sample cols \<in> set tr \<Longrightarrow>
         \<exists>ss. act = map Some ss
            \<and> sample = concat (map (\<lambda>s. take 50 (rows s)) ss)
            \<and> cols = first_occurrences (concat (map columns ss))"
  using assms
proof (induction rule: run_steps_induct)
  case (stop i steps w)
  then show ?case by simp
next
  case (suspend i steps w tr1 s1)
  from executeStep_call_data [OF suspend(2) suspend.prems] show ?case .
next
  case (continue i steps w tr1 s1 w1 tr2 fin c)
  show ?case
  proof (cases "AnalyzeCall j t d sample cols \<in> set tr1")
    case True
    from executeStep_call_data [OF continue(2) True] show ?thesis .
  next
    case False
    with continue.prems have "AnalyzeCall j t d sample cols \<in> set tr2" by simp
    with continue.IH show ?thesis .
  qed
qed

lemma runAnalysis_call_data:
  assumes run: "runAnalysis an now customSteps st w = (tr, st', c)"
    and call: "AnalyzeCall j t d sample cols \<in> set tr"
  shows "\<exists>ss. activeSheets st = map Some ss
            \<and> sample = concat (map (\<lambda>s. take 50 (rows s)) ss)
            \<and> cols = first_occurrences (concat (map columns ss))"
proof (cases customSteps)
  case None
  with run call show ?thesis by (simp add: runAnalysis_skip)
next
  case (Some cs)
  show ?thesis
  proof (cases "cs = []")
    case True
    with run call Some show ?thesis by (simp add: runAnalysis_skip)
  next
    case False
    from runAnalysis_run [OF run [unfolded Some] False] obtain tr' where
      rs: "run_steps an (activeSheets st) (map_idx (parse_step now) cs) 0
                 (map_idx (parse_step now) cs, w) = (tr', stepAnalyses st', c)"
      and tr: "tr = StepsSet (map_idx (parse_step now) cs) # tr'"
      by blast
    from call tr have "AnalyzeCall j t d sample cols \<in> set tr'" by simp
    from run_steps_call_data [OF rs this] show ?thesis .
  qed
qed

lemma handleReAnalyzeStep_call_data:
  assumes run: "handleReAnalyzeStep an id' nt nd st w = (tr, st', c)"
    and call: "AnalyzeCall j t d sample cols \<in> set tr"
  shows "\<exists>ss. activeSheets st = map Some ss
            \<and> sample = concat (map (\<lambda>s. take 50 (rows s)) ss)
            \<and> cols = first_occurrences (concat (map columns ss))"
proof (cases "findIndex (\<lambda>s. id_field s = id') (stepAnalyses st)")
  case None
  from handleReAnalyzeStep_not_found [OF None, of an nt nd w] run call show ?thesis by simp
next
  case (Some index)
  from handleReAnalyzeStep_found [OF run Some] obtain tr' upd where
    ex: "executeStep an (activeSheets st) index upd (upd, w) = (tr', stepAnalyses st', c)"
    and tr: "tr = StepsSet upd # tr'"
    by blast
  from call tr have "AnalyzeCall j t d sample cols \<in> set tr'" by simp
  from executeStep_call_data [OF ex this] show ?thesis .
qed

text \<open>
  Claim C8. Whenever \<open>analyzeSingleStep\<close> is called, in one execution and so in
  \<open>runAnalysis\<close> and in \<open>handleReAnalyzeStep\<close>, every active sheet exists, the rows passed
  are the first 50 rows (or all, if fewer) of each active sheet, concatenated in the
  order of the active sheets, and the columns passed are the column names of the active
  sheets at their first occurrences, without duplicates. The active sheets are the
  selected (file, sheet) pairs whose file exists, in the iteration order of the
  selection map and of each of its sets.
\<close>

theorem C8_data_sent:
  "(executeStep an act index cur (prev, w) = (tr, fin, c)
      \<and> AnalyzeCall j t d sample cols \<in> set tr \<longrightarrow>
      (\<exists>ss. act = map Some ss
          \<and> sample = concat (map (\<lambda>s. take 50 (rows s)) ss)
          \<and> cols = first_occurrences (concat (map columns ss))
          \<and> distinct cols \<and> set cols = set (concat (map columns ss))
          \<and> length sample \<le> 50 * length ss))
 \<and> (runAnalysis an now customSteps st w = (tr1, st1, c1)
      \<and> AnalyzeCall j t d sample cols \<in> set tr1 \<longrightarrow>
      (\<exists>ss. activeSheets st = map Some ss
          \<and> sample = concat (map (\<lambda>s. take 50 (rows s)) ss)
          \<and> cols = first_occurrences (concat (map columns ss))))
 \<and> (handleReAnalyzeStep an id' newTitle newDescription st w = (tr2, st2, c2)
      \<and> AnalyzeCall j t d sample cols \<in> set tr2 \<longrightarrow>
      (\<exists>ss. activeSheets st = map Some ss
          \<and> sample = concat (map (\<lambda>s. take 50 (rows s)) ss)
          \<and> cols = first_occurrences (concat (map columns ss))))
 \<and> (fileDatas st = Some fds \<longrightarrow>
      activeSheets st =
        map (\<lambda>(f, s). at_index (sheets (fds ! f)) s)
          (filter (\<lambda>(f, s). f < length fds) (selected_pairs (selectedSheetsMap st))))"
proof (intro conjI impI)
  assume "executeStep an act index cur (prev, w) = (tr, fin, c)
      \<and> AnalyzeCall j t d sample cols \<in> set tr"
  then have ex: "executeStep an act index cur (prev, w) = (tr, fin, c)"
    and call: "AnalyzeCall j t d sample cols \<in> set tr"
    by simp_all
  from executeStep_call_data [OF ex call] obtain ss where
    ss: "act = map Some ss" "sample = concat (map (\<lambda>s. take 50 (rows s)) ss)"
      "cols = first_occurrences (concat (map columns ss))"
    by (elim exE conjE)
  have "distinct cols" "set cols = set (concat (map columns ss))"
    using distinct_new_Set [of "concat (map columns ss)"] set_new_Set [of "concat (map columns ss)"]
    by (simp_all only: ss(3) new_Set_first_occurrences)
  moreover have "length sample \<le> 50 * length ss"
    unfolding ss(2) by (rule length_sample)
  ultimately have "act = map Some ss
          \<and> sample = concat (map (\<lambda>s. take 50 (rows s)) ss)
          \<and> cols = first_occurrences (concat (map columns ss))
          \<and> distinct cols \<and> set cols = set (concat (map columns ss))
          \<and> length sample \<le> 50 * length ss"
    using ss by (intro conjI)
  then show "\<exists>ss. act = map Some ss
          \<and> sample = concat (map (\<lambda>s. take 50 (rows s)) ss)
          \<and> cols = first_occurrences (concat (map columns ss))
          \<and> distinct cols \<and> set cols = set (concat (map columns ss))
          \<and> length sample \<le> 50 * length ss"
    by (rule exI)
next
  assume "runAnalysis an now customSteps st w = (tr1, st1, c1)
      \<and> AnalyzeCall j t d sample cols \<in> set tr1"
  then have run: "runAnalysis an now customSteps st w = (tr1, st1, c1)"
    and call: "AnalyzeCall j t d sample cols \<in> set tr1"
    by simp_all
  show "\<exists>ss. activeSheets st = map Some ss
          \<and> sample = concat (map (\<lambda>s. take 50 (rows s)) ss)
          \<and> cols = first_occurrences (concat (map columns ss))"
    by (rule runAnalysis_call_data [OF run call])
next
  assume "handleReAnalyzeStep an id' newTitle newDescription st w = (tr2, st2, c2)
      \<and> AnalyzeCall j t d sample cols \<in> set tr2"
  then have run: "handleReAnalyzeStep an id' newTitle newDescription st w = (tr2, st2, c2)"
    and call: "AnalyzeCall j t d sample cols \<in> set tr2"
    by simp_all
  show "\<exists>ss. activeSheets st = map Some ss
          \<and> sample = concat (map (\<lambda>s. take 50 (rows s)) ss)
          \<and> cols = first_occurrences (concat (map columns ss))"
    by (rule handleReAnalyzeStep_call_data [OF run call])
next
  assume "fileDatas st = Some fds"
  then show "activeSheets st =
        map (\<lambda>(f, s). at_index (sheets (fds ! f)) s)
          (filter (\<lambda>(f, s). f < length fds) (selected_pairs (selectedSheetsMap st)))"
    by (rule activeSheets_pairs)
qed

lemma example_two_selection: "selectedSheetsMap example_two = [(0, [1, 0])]"
  by (simp add: example_two_def handleToggleSheet_def handleDataLoaded_def initial_App_def
      new_Set_def Set_add_def Set_has_def Set_delete_def Set_size_def Map_delete_def Let_def)

lemma example_two_files:
  "fileDatas example_two =
     Some [\<lparr>file_name = [0x46], sheets = [example_sheet, example_big_sheet],
             activeSheetIndex = 0\<rparr>]"
  by (simp add: example_two_def handleToggleSheet_def handleDataLoaded_def initial_App_def
      Let_def)

lemma example_two_sheets:
  "activeSheets example_two = [Some example_big_sheet, Some example_sheet]"
  by (simp add: activeSheets_def example_two_selection example_two_files at_index_def)

lemma example_exec_two_call:
  "AnalyzeCall 0 [0x61] [0x62, 0x3A, 0x63] ([0..<50] @ [1, 2, 3]) [[0x62], [0x63], [0x61]]
     \<in> set (fst example_exec_two)"
  by (simp add: example_exec_two_def example_two_sheets executeStep_def example_done_steps
      at_index_def Let_def example_big_sheet_def example_sheet_def new_Set_def Set_add_def
      example_analyzer_def)

theorem C8_data_sent_witness:
  "AnalyzeCall 0 [0x61] [0x62, 0x3A, 0x63] ([0..<50] @ [1, 2, 3]) [[0x62], [0x63], [0x61]]
     \<in> set (fst example_exec_two)
   \<and> selectedSheetsMap example_two = [(0, [1, 0])]
   \<and> activeSheets example_two = [Some example_big_sheet, Some example_sheet]
   \<and> length (rows example_big_sheet) = 60
   \<and> (\<exists>ss. activeSheets example_two = map Some ss
          \<and> [0..<50] @ [1, 2, 3] = concat (map (\<lambda>s. take 50 (rows s)) ss)
          \<and> [[0x62], [0x63], [0x61]] = first_occurrences (concat (map columns ss))
          \<and> distinct [[0x62 :: 16 word], [0x63], [0x61]]
          \<and> length ([0..<50] @ [1, 2, 3 :: nat]) \<le> 50 * length ss)"
proof -
  have ex: "executeStep example_analyzer (activeSheets example_two) 0
     (stepAnalyses example_done) (stepAnalyses example_done, 0)
       = (fst example_exec_two, fst (snd example_exec_two), snd (snd example_exec_two))"
    by (simp add: example_exec_two_def)
  note inst = C8_data_sent [where an = example_analyzer and act = "activeSheets example_two"
      and index = 0 and cur = "stepAnalyses example_done" and prev = "stepAnalyses example_done"
      and w = 0 and tr = "fst example_exec_two" and fin = "fst (snd example_exec_two)"
      and c = "snd (snd example_exec_two)" and j = 0 and t = "[0x61]"
      and d = "[0x62, 0x3A, 0x63]" and sample = "[0..<50] @ [1, 2, 3]"
      and cols = "[[0x62], [0x63], [0x61]]"]
  from inst [THEN conjunct1, THEN mp, OF conjI [OF ex example_exec_two_call]]
  obtain ss where "activeSheets example_two = map Some ss"
    "[0..<50] @ [1, 2, 3] = concat (map (\<lambda>s. take 50 (rows s)) ss)"
    "[[0x62], [0x63], [0x61]] = first_occurrences (concat (map columns ss))"
    "distinct [[0x62 :: 16 word], [0x63], [0x61]]"
    "length ([0..<50] @ [1, 2, 3 :: nat]) \<le> 50 * length ss"
    by (elim exE conjE)
  then have "\<exists>ss. activeSheets example_two = map Some ss
          \<and> [0..<50] @ [1, 2, 3] = concat (map (\<lambda>s. take 50 (rows s)) ss)
          \<and> [[0x62], [0x63], [0x61]] = first_occurrences (concat (map columns ss))
          \<and> distinct [[0x62 :: 16 word], [0x63], [0x61]]
          \<and> length ([0..<50] @ [1, 2, 3 :: nat]) \<le> 50 * length ss"
    by (intro exI conjI)
  moreover have "length (rows example_big_sheet) = 60"
    by (simp add: example_big_sheet_def)
  ultimately show ?thesis
    using example_exec_two_call example_two_selection example_two_sheets
    by (intro conjI)
qed

end
